theory Spec2Isabelle
  imports Complex_Main "HOL-Library.Word" "HOL-Library.Monad_Syntax"
begin

unbundle bit_operations_syntax

section \<open>Host toolkit containers\<close>

text \<open>
  \<^verbatim>\<open>implot3d_internal.h\<close> stores everything in containers of Dear ImGui
  (\<^verbatim>\<open>ImVector\<close>, \<^verbatim>\<open>ImGuiTextBuffer\<close>, \<^verbatim>\<open>ImGuiStorage\<close>).
  An \<^verbatim>\<open>ImVector<T>\<close> is a list, \<^verbatim>\<open>push_back\<close> appends at the end and
  \<^verbatim>\<open>size()\<close> is the length as an \<^verbatim>\<open>int\<close>. Reading or writing element \<open>i\<close> is
  only defined for \<open>0 \<le> i < size\<close>; everywhere else the model returns \<open>None\<close>,
  whether the build aborts there (\<^verbatim>\<open>IM_ASSERT\<close>) or goes on with undefined behaviour.
  So does \<^verbatim>\<open>&v[i]\<close>: it goes through \<^verbatim>\<open>operator[]\<close> too, which asserts
  \<open>i < size\<close> and otherwise hands out a reference to an element that is not there. The
  address one past the end is refused like any other.
\<close>

type_synonym ImU32 = "32 word"
type_synonym ImGuiID = "32 word"

definition NUL :: char where
  "NUL = CHR 0x00"

text \<open>
  An \<^verbatim>\<open>int\<close> has 32 bits. A signed computation whose result does not fit is
  undefined behaviour: \<open>c_int x\<close> is the value of an \<^verbatim>\<open>int\<close> expression whose
  exact result is \<open>x\<close>.
\<close>

definition INT_MAX :: int where
  "INT_MAX = 2147483647"

definition INT_MIN :: int where
  "INT_MIN = - 2147483648"

definition c_int :: "int \<Rightarrow> int option" where
  "c_int x = (if INT_MIN \<le> x \<and> x \<le> INT_MAX then Some x else None)"

text \<open>\<^verbatim>\<open>v[i]\<close> on an \<^verbatim>\<open>ImVector\<close> (or through a pointer into its storage).\<close>

definition vget :: "'a list \<Rightarrow> int \<Rightarrow> 'a option" where
  "vget xs i = (if 0 \<le> i \<and> i < int (length xs) then Some (xs ! nat i) else None)"

text \<open>\<^verbatim>\<open>v[i] = x\<close> on an \<^verbatim>\<open>ImVector\<close>.\<close>

definition vset :: "'a list \<Rightarrow> int \<Rightarrow> 'a \<Rightarrow> 'a list option" where
  "vset xs i x = (if 0 \<le> i \<and> i < int (length xs) then Some (xs[nat i := x]) else None)"

text \<open>
  \<^verbatim>\<open>&v[i]\<close>. A pointer into the storage of a vector is modelled by the index of
  the element it points at, so that \<^verbatim>\<open>p[j]\<close> is \<^verbatim>\<open>v[p + j]\<close>.
\<close>

definition vptr :: "'a list \<Rightarrow> int \<Rightarrow> int option" where
  "vptr xs i = (if 0 \<le> i \<and> i < int (length xs) then Some i else None)"

text \<open>
  \<^verbatim>\<open>v.push_back(x)\<close>. \<^verbatim>\<open>Size\<close> is an \<^verbatim>\<open>int\<close> and \<^verbatim>\<open>push_back\<close>
  increments it: a vector of \<^verbatim>\<open>INT_MAX\<close> elements takes no more. Growing the
  capacity and allocating are the toolkit's business and always succeed here. The
  vectors of the colormap registry are pushed with this function, since its tables (255
  entries for every key) can reach the bound; the ticks of an axis and the text buffers
  are taken to stay below it and are appended to directly.
\<close>

definition push_back :: "'a list \<Rightarrow> 'a \<Rightarrow> 'a list option" where
  "push_back xs x = (if int (length xs) < INT_MAX then Some (xs @ [x]) else None)"

text \<open>The C string that starts at a pointer: the bytes before the first terminator.\<close>

definition c_str :: "char list \<Rightarrow> string" where
  "c_str bytes = takeWhile (\<lambda>c. c \<noteq> NUL) bytes"

text \<open>
  \<^verbatim>\<open>ImGuiTextBuffer\<close> keeps its characters in \<^verbatim>\<open>Buf\<close>, followed by one
  terminator once anything has been appended. \<^verbatim>\<open>size()\<close> does not count that
  terminator, and \<^verbatim>\<open>append(str, str_end)\<close> overwrites it with the new bytes and
  writes a fresh one after them. The buffer is modelled by the contents of \<^verbatim>\<open>Buf\<close>.
\<close>

definition ImGuiTextBuffer_size :: "char list \<Rightarrow> int" where
  "ImGuiTextBuffer_size buf = (if buf \<noteq> [] then int (length buf) - 1 else 0)"

definition ImGuiTextBuffer_append :: "char list \<Rightarrow> char list \<Rightarrow> char list" where
  "ImGuiTextBuffer_append buf bytes =
     (let write_off = (if buf \<noteq> [] then length buf else 1)
      in take (write_off - 1) buf @ bytes @ [NUL])"

text \<open>\<^verbatim>\<open>Buf.Data + off\<close> read as a C string.\<close>

definition text_at :: "char list \<Rightarrow> int \<Rightarrow> string option" where
  "text_at buf off =
     (if 0 \<le> off \<and> off < int (length buf) \<and> NUL \<in> set (drop (nat off) buf)
      then Some (c_str (drop (nat off) buf)) else None)"

section \<open>Ticks\<close>

type_synonym 'f ImVec2 = "'f \<times> 'f"

record 'f ImPlot3DTick =
  PlotPos :: 'f
  Major :: bool
  ShowLabel :: bool
  LabelSize :: "'f ImVec2"
  TextOffset :: int
  Idx :: int

text \<open>
  The constructor narrows the \<^verbatim>\<open>double\<close> to \<^verbatim>\<open>float\<close> (\<open>narrow\<close>), zero-initialises
  \<^verbatim>\<open>LabelSize\<close> and leaves \<^verbatim>\<open>Idx\<close> unset: \<open>junk\<close> is whatever the memory held.
\<close>

definition ImPlot3DTick_ctor ::
  "('d \<Rightarrow> 'f) \<Rightarrow> int \<Rightarrow> 'd \<Rightarrow> bool \<Rightarrow> bool \<Rightarrow> ('f::zero) ImPlot3DTick" where
  "ImPlot3DTick_ctor narrow junk v major show_label =
     \<lparr>PlotPos = narrow v, Major = major, ShowLabel = show_label,
      LabelSize = (0, 0), TextOffset = - 1, Idx = junk\<rparr>"

record 'f ImPlot3DTicker =
  Ticks :: "'f ImPlot3DTick list"
  TextBuffer :: "char list"

text \<open>\<^verbatim>\<open>AddTick(ImPlot3DTick tick)\<close>: returns the stored tick and the ticker.\<close>

definition AddTick ::
  "'f ImPlot3DTicker \<Rightarrow> 'f ImPlot3DTick \<Rightarrow> 'f ImPlot3DTick \<times> 'f ImPlot3DTicker" where
  "AddTick tk tick =
     (let tick' = tick\<lparr>Idx := int (length (Ticks tk))\<rparr>
      in (tick', tk\<lparr>Ticks := Ticks tk @ [tick']\<rparr>))"

text \<open>
  \<^verbatim>\<open>AddTick(value, major, show_label, label)\<close>; \<open>calc\<close> is the host's
  \<^verbatim>\<open>ImGui::CalcTextSize\<close>, a null \<^verbatim>\<open>label\<close> is \<open>None\<close>.
\<close>

definition AddTick_label ::
  "(string \<Rightarrow> 'f ImVec2) \<Rightarrow> ('d \<Rightarrow> 'f) \<Rightarrow> int \<Rightarrow> 'f ImPlot3DTicker \<Rightarrow> 'd \<Rightarrow> bool \<Rightarrow> bool \<Rightarrow>
     string option \<Rightarrow> (('f::zero) ImPlot3DTick \<times> 'f ImPlot3DTicker) option" where
  "AddTick_label calc narrow junk tk v major show_label label =
     (let tick = ImPlot3DTick_ctor narrow junk v major show_label
      in case label of
           Some l \<Rightarrow>
             if show_label then
               (let off = ImGuiTextBuffer_size (TextBuffer tk);
                    buf = ImGuiTextBuffer_append (TextBuffer tk) (c_str l @ [NUL])
                in case text_at buf off of
                     None \<Rightarrow> None
                   | Some s \<Rightarrow>
                       Some (AddTick (tk\<lparr>TextBuffer := buf\<rparr>)
                               (tick\<lparr>TextOffset := off, LabelSize := calc s\<rparr>)))
             else Some (AddTick tk tick)
         | None \<Rightarrow> Some (AddTick tk tick))"

text \<open>
  \<^verbatim>\<open>AddTick(value, major, show_label, formatter, data)\<close>. The formatter is given
  the position and the size of the stack buffer (\<^verbatim>\<open>IMPLOT3D_LABEL_MAX_SIZE\<close>) and
  returns the bytes of the buffer after the call; \<^verbatim>\<open>strlen\<close> on a buffer that holds
  no terminator reads past it, which is \<open>None\<close>.
\<close>

definition IMPLOT3D_LABEL_MAX_SIZE :: nat where
  "IMPLOT3D_LABEL_MAX_SIZE = 32"

definition AddTick_formatter ::
  "(string \<Rightarrow> 'f ImVec2) \<Rightarrow> ('d \<Rightarrow> 'f) \<Rightarrow> int \<Rightarrow> 'f ImPlot3DTicker \<Rightarrow> 'd \<Rightarrow> bool \<Rightarrow> bool \<Rightarrow>
     ('f \<Rightarrow> nat \<Rightarrow> char list) option \<Rightarrow> (('f::zero) ImPlot3DTick \<times> 'f ImPlot3DTicker) option" where
  "AddTick_formatter calc narrow junk tk v major show_label formatter =
     (let tick = ImPlot3DTick_ctor narrow junk v major show_label
      in case formatter of
           Some f \<Rightarrow>
             if show_label then
               (let off = ImGuiTextBuffer_size (TextBuffer tk);
                    buff = take IMPLOT3D_LABEL_MAX_SIZE (f (PlotPos tick) IMPLOT3D_LABEL_MAX_SIZE)
                in if NUL \<notin> set buff then None
                   else
                     (let buf = ImGuiTextBuffer_append (TextBuffer tk) (c_str buff @ [NUL])
                      in case text_at buf off of
                           None \<Rightarrow> None
                         | Some s \<Rightarrow>
                             Some (AddTick (tk\<lparr>TextBuffer := buf\<rparr>)
                                     (tick\<lparr>TextOffset := off, LabelSize := calc s\<rparr>))))
             else Some (AddTick tk tick)
         | None \<Rightarrow> Some (AddTick tk tick))"

text \<open>\<^verbatim>\<open>Reset()\<close> empties both vectors; the constructor calls it.\<close>

definition Ticker_Reset :: "'f ImPlot3DTicker \<Rightarrow> 'f ImPlot3DTicker" where
  "Ticker_Reset tk = tk\<lparr>Ticks := [], TextBuffer := []\<rparr>"

definition TickCount :: "'f ImPlot3DTicker \<Rightarrow> int" where
  "TickCount tk = int (length (Ticks tk))"

text \<open>A call of one of the three overloads, and a sequence of such calls on a ticker.\<close>

datatype ('d, 'f) tick_call =
    ByLabel int 'd bool bool "string option"
  | ByFormatter int 'd bool bool "('f \<Rightarrow> nat \<Rightarrow> char list) option"
  | ByTick "'f ImPlot3DTick"

fun add_call ::
  "(string \<Rightarrow> 'f ImVec2) \<Rightarrow> ('d \<Rightarrow> 'f) \<Rightarrow> 'f ImPlot3DTicker \<Rightarrow> ('d, 'f) tick_call \<Rightarrow>
     (('f::zero) ImPlot3DTick \<times> 'f ImPlot3DTicker) option" where
  "add_call calc narrow tk (ByLabel junk v major show_label label) =
     AddTick_label calc narrow junk tk v major show_label label"
| "add_call calc narrow tk (ByFormatter junk v major show_label formatter) =
     AddTick_formatter calc narrow junk tk v major show_label formatter"
| "add_call calc narrow tk (ByTick tick) = Some (AddTick tk tick)"

fun add_calls ::
  "(string \<Rightarrow> 'f ImVec2) \<Rightarrow> ('d \<Rightarrow> 'f) \<Rightarrow> 'f ImPlot3DTicker \<Rightarrow> ('d, 'f) tick_call list \<Rightarrow>
     (('f::zero) ImPlot3DTicker) option" where
  "add_calls calc narrow tk [] = Some tk"
| "add_calls calc narrow tk (c # cs) =
     (case add_call calc narrow tk c of
        None \<Rightarrow> None
      | Some (t, tk') \<Rightarrow> add_calls calc narrow tk' cs)"

section \<open>Colour blending\<close>

text \<open>
  \<^verbatim>\<open>ImMixU32(a, b, s)\<close>, in both of its compile-time variants: \<open>mix64\<close> is
  whether \<^verbatim>\<open>IMPLOT_MIX64\<close> is defined. All arithmetic is unsigned and wraps.
\<close>

definition ImMixU32 :: "bool \<Rightarrow> ImU32 \<Rightarrow> ImU32 \<Rightarrow> ImU32 \<Rightarrow> ImU32" where
  "ImMixU32 mix64 a b s =
     (if mix64 then
        (let af = 256 - s;
             bf = s;
             al = (ucast (a AND 0x00ff00ff) :: 64 word)
                    OR push_bit 24 (ucast (a AND 0xff00ff00) :: 64 word);
             bl = (ucast (b AND 0x00ff00ff) :: 64 word)
                    OR push_bit 24 (ucast (b AND 0xff00ff00) :: 64 word);
             mix = al * ucast af + bl * ucast bf
         in ucast ((drop_bit 32 mix AND 0xff00ff00) OR drop_bit 8 (mix AND 0xff00ff00)))
      else
        (let af = 256 - s;
             bf = s;
             al = a AND 0x00ff00ff;
             ah = drop_bit 8 (a AND 0xff00ff00);
             bl = b AND 0x00ff00ff;
             bh = drop_bit 8 (b AND 0xff00ff00);
             ml = al * af + bl * bf;
             mh = ah * af + bh * bf
         in (mh AND 0xff00ff00) OR drop_bit 8 (ml AND 0xff00ff00)))"

section \<open>Colormap data\<close>

text \<open>
  Sizes, counts and offsets are \<^verbatim>\<open>int\<close> in the source. The model computes with
  mathematical integers and checks the range wherever the source computes a new
  \<^verbatim>\<open>int\<close> that can leave it (\<open>c_int\<close>) or pushes onto a vector (\<open>push_back\<close>).
  An index \<^verbatim>\<open>off + idx\<close> that leaves the range lies outside every vector, and element
  access refuses it as it refuses any index out of bounds.
  \<^verbatim>\<open>Map\<close> is an \<^verbatim>\<open>ImGuiStorage\<close> used through \<^verbatim>\<open>GetInt\<close> and
  \<^verbatim>\<open>SetInt\<close> only: a finite map from hashes to integers.
\<close>

record ImPlot3DColormapData =
  Keys :: "ImU32 list"
  KeyCounts :: "int list"
  KeyOffsets :: "int list"
  Tables :: "ImU32 list"
  TableSizes :: "int list"
  TableOffsets :: "int list"
  Text :: "char list"
  TextOffsets :: "int list"
  Quals :: "bool list"
  Map :: "ImGuiID \<rightharpoonup> int"
  Count :: int

text \<open>The constructor sets \<^verbatim>\<open>Count = 0\<close>; every container starts empty.\<close>

definition ImPlot3DColormapData_ctor :: ImPlot3DColormapData where
  "ImPlot3DColormapData_ctor =
     \<lparr>Keys = [], KeyCounts = [], KeyOffsets = [], Tables = [], TableSizes = [],
      TableOffsets = [], Text = [], TextOffsets = [], Quals = [], Map = Map.empty,
      Count = 0\<rparr>"

text \<open>
  \<^verbatim>\<open>GetIndex(name)\<close>; \<open>hash\<close> is the host's \<^verbatim>\<open>ImHashStr\<close>, which reads the
  C string \<open>name\<close>.
\<close>

definition GetIndex :: "(string \<Rightarrow> ImGuiID) \<Rightarrow> ImPlot3DColormapData \<Rightarrow> char list \<Rightarrow> int" where
  "GetIndex hash d name = (case Map d (hash (c_str name)) of None \<Rightarrow> - 1 | Some v \<Rightarrow> v)"

definition IsQual :: "ImPlot3DColormapData \<Rightarrow> int \<Rightarrow> bool option" where
  "IsQual d cmap = vget (Quals d) cmap"

text \<open>\<^verbatim>\<open>GetName(cmap)\<close>; the inner \<open>None\<close> is \<^verbatim>\<open>nullptr\<close>.\<close>

definition GetName :: "ImPlot3DColormapData \<Rightarrow> int \<Rightarrow> string option option" where
  "GetName d cmap =
     (if cmap < Count d then
        do { off \<leftarrow> vget (TextOffsets d) cmap;
             s \<leftarrow> text_at (Text d) off;
             Some (Some s) }
      else Some None)"

definition GetKeyCount :: "ImPlot3DColormapData \<Rightarrow> int \<Rightarrow> int option" where
  "GetKeyCount d cmap = vget (KeyCounts d) cmap"

text \<open>
  \<^verbatim>\<open>GetKeys(cmap)\<close> is \<^verbatim>\<open>&Keys[KeyOffsets[cmap]]\<close> and \<^verbatim>\<open>GetTable(cmap)\<close> is
  \<^verbatim>\<open>&Tables[TableOffsets[cmap]]\<close>: pointers into \<^verbatim>\<open>Keys\<close> and \<^verbatim>\<open>Tables\<close>.
\<close>

definition GetKeys :: "ImPlot3DColormapData \<Rightarrow> int \<Rightarrow> int option" where
  "GetKeys d cmap = do { off \<leftarrow> vget (KeyOffsets d) cmap; vptr (Keys d) off }"

definition GetKeyColor :: "ImPlot3DColormapData \<Rightarrow> int \<Rightarrow> int \<Rightarrow> ImU32 option" where
  "GetKeyColor d cmap idx =
     do { off \<leftarrow> vget (KeyOffsets d) cmap; vget (Keys d) (off + idx) }"

definition GetTable :: "ImPlot3DColormapData \<Rightarrow> int \<Rightarrow> int option" where
  "GetTable d cmap = do { off \<leftarrow> vget (TableOffsets d) cmap; vptr (Tables d) off }"

definition GetTableSize :: "ImPlot3DColormapData \<Rightarrow> int \<Rightarrow> int option" where
  "GetTableSize d cmap = vget (TableSizes d) cmap"

definition GetTableColor :: "ImPlot3DColormapData \<Rightarrow> int \<Rightarrow> int \<Rightarrow> ImU32 option" where
  "GetTableColor d cmap idx =
     do { off \<leftarrow> vget (TableOffsets d) cmap; vget (Tables d) (off + idx) }"

text \<open>
  \<^verbatim>\<open>for (int i = 0; i < n; ++i) dst.push_back(p[i]);\<close> with \<open>p\<close> the pointer
  \<open>base\<close> into \<open>src\<close>. This is the loop of \<^verbatim>\<open>Append\<close> over the caller's array
  (\<open>base = 0\<close>; reading past the array is \<open>None\<close>) and the loop of the qualitative
  branch of \<^verbatim>\<open>_AppendTable\<close> over \<^verbatim>\<open>keys = GetKeys(cmap)\<close>.
\<close>

function push_loop :: "'a list \<Rightarrow> int \<Rightarrow> int \<Rightarrow> int \<Rightarrow> 'a list \<Rightarrow> 'a list option" where
  "push_loop src base n i dst =
     (if i < n then
        (case vget src (base + i) of
           None \<Rightarrow> None
         | Some x \<Rightarrow>
             (case push_back dst x of
                None \<Rightarrow> None
              | Some dst' \<Rightarrow> push_loop src base n (i + 1) dst'))
      else Some dst)"
  by pat_completeness auto
termination
  by (relation "measure (\<lambda>(src, base, n, i, dst). nat (n - i))") auto

declare push_loop.simps [simp del]

text \<open>
  The inner loop of the continuous branch:
  \<^verbatim>\<open>for (int s = 0; s < 255; ++s) Tables.push_back(ImMixU32(keys[i], keys[i + 1], s));\<close>
\<close>

function mix_loop ::
  "bool \<Rightarrow> ImU32 list \<Rightarrow> int \<Rightarrow> int \<Rightarrow> int \<Rightarrow> ImU32 list \<Rightarrow> ImU32 list option" where
  "mix_loop mix64 ks base i s tbl =
     (if s < 255 then
        (case vget ks (base + i) of
           None \<Rightarrow> None
         | Some a \<Rightarrow>
             (case vget ks (base + (i + 1)) of
                None \<Rightarrow> None
              | Some b \<Rightarrow>
                  (case push_back tbl (ImMixU32 mix64 a b (word_of_int s)) of
                     None \<Rightarrow> None
                   | Some tbl' \<Rightarrow> mix_loop mix64 ks base i (s + 1) tbl')))
      else Some tbl)"
  by pat_completeness auto
termination
  by (relation "measure (\<lambda>(mix64, ks, base, i, s, tbl). nat (255 - s))") auto

declare mix_loop.simps [simp del]

text \<open>
  The outer loop: \<^verbatim>\<open>for (int i = 0; i < key_count - 1; ++i)\<close>. It is entered after
  \<^verbatim>\<open>key_count - 1\<close> has been computed for \<^verbatim>\<open>max_size\<close>, and \<open>i + 1\<close> stays
  below it.
\<close>

function key_loop ::
  "bool \<Rightarrow> ImU32 list \<Rightarrow> int \<Rightarrow> int \<Rightarrow> int \<Rightarrow> ImU32 list \<Rightarrow> ImU32 list option" where
  "key_loop mix64 ks base key_count i tbl =
     (if i < key_count - 1 then
        (case mix_loop mix64 ks base i 0 tbl of
           None \<Rightarrow> None
         | Some tbl' \<Rightarrow> key_loop mix64 ks base key_count (i + 1) tbl')
      else Some tbl)"
  by pat_completeness auto
termination
  by (relation "measure (\<lambda>(mix64, ks, base, key_count, i, tbl). nat (key_count - 1 - i))") auto

declare key_loop.simps [simp del]

text \<open>
  \<^verbatim>\<open>_AppendTable(cmap)\<close>. \<^verbatim>\<open>reserve\<close> changes no contents; its argument
  \<^verbatim>\<open>off + max_size\<close> is computed all the same.
\<close>

definition AppendTable :: "bool \<Rightarrow> ImPlot3DColormapData \<Rightarrow> int \<Rightarrow> ImPlot3DColormapData option" where
  "AppendTable mix64 d cmap =
     do { key_count \<leftarrow> GetKeyCount d cmap;
          keys \<leftarrow> GetKeys d cmap;
          let off = int (length (Tables d));
          offs \<leftarrow> push_back (TableOffsets d) off;
          let d1 = d\<lparr>TableOffsets := offs\<rparr>;
          qual \<leftarrow> IsQual d1 cmap;
          if qual then
            do { tbl \<leftarrow> push_loop (Keys d1) keys key_count 0 (Tables d1);
                 sizes \<leftarrow> push_back (TableSizes d1) key_count;
                 Some (d1\<lparr>Tables := tbl, TableSizes := sizes\<rparr>) }
          else
            do { k1 \<leftarrow> c_int (key_count - 1);
                 m \<leftarrow> c_int (255 * k1);
                 max_size \<leftarrow> c_int (m + 1);
                 cap \<leftarrow> c_int (off + max_size);
                 tbl \<leftarrow> key_loop mix64 (Keys d1) keys key_count 0 (Tables d1);
                 c \<leftarrow> vget (Keys d1) (keys + (key_count - 1));
                 tbl' \<leftarrow> push_back tbl c;
                 sizes \<leftarrow> push_back (TableSizes d1) max_size;
                 Some (d1\<lparr>Tables := tbl', TableSizes := sizes\<rparr>) } }"

lemma AppendTable_Count: "AppendTable mix64 d cmap = Some d' \<Longrightarrow> Count d' = Count d"
  by (auto simp: AppendTable_def Let_def split: bind_splits if_splits)

text \<open>The loop of \<^verbatim>\<open>RebuildTables\<close>: \<^verbatim>\<open>for (int i = 0; i < Count; ++i) _AppendTable(i);\<close>\<close>

function rebuild_loop :: "bool \<Rightarrow> ImPlot3DColormapData \<Rightarrow> int \<Rightarrow> ImPlot3DColormapData option" where
  "rebuild_loop mix64 d i =
     (if i < Count d then
        (case AppendTable mix64 d i of
           None \<Rightarrow> None
         | Some d' \<Rightarrow> rebuild_loop mix64 d' (i + 1))
      else Some d)"
  by pat_completeness auto
termination
  by (relation "measure (\<lambda>(mix64, d, i). nat (Count d - i))")
     (auto dest: AppendTable_Count)

declare rebuild_loop.simps [simp del]

definition RebuildTables :: "bool \<Rightarrow> ImPlot3DColormapData \<Rightarrow> ImPlot3DColormapData option" where
  "RebuildTables mix64 d =
     rebuild_loop mix64 (d\<lparr>Tables := [], TableSizes := [], TableOffsets := []\<rparr>) 0"

text \<open>
  \<^verbatim>\<open>Append(name, keys, count, qual)\<close>: the returned index and the new state.
  \<open>keys\<close> is the caller's array, \<open>name\<close> the bytes at the caller's pointer.
  \<^verbatim>\<open>Keys.reserve(Keys.size() + count)\<close> changes no contents; the sum is computed.
\<close>

definition Append ::
  "bool \<Rightarrow> (string \<Rightarrow> ImGuiID) \<Rightarrow> ImPlot3DColormapData \<Rightarrow> char list \<Rightarrow> ImU32 list \<Rightarrow> int \<Rightarrow> bool \<Rightarrow>
     (int \<times> ImPlot3DColormapData) option" where
  "Append mix64 hash d name keys count qual =
     (if GetIndex hash d name \<noteq> - 1 then Some (- 1, d)
      else
        do { key_offsets \<leftarrow> push_back (KeyOffsets d) (int (length (Keys d)));
             let d1 = d\<lparr>KeyOffsets := key_offsets\<rparr>;
             key_counts \<leftarrow> push_back (KeyCounts d1) count;
             let d2 = d1\<lparr>KeyCounts := key_counts\<rparr>;
             cap \<leftarrow> c_int (int (length (Keys d2)) + count);
             ks \<leftarrow> push_loop keys 0 count 0 (Keys d2);
             let d3 = d2\<lparr>Keys := ks\<rparr>;
             text_offsets \<leftarrow> push_back (TextOffsets d3) (ImGuiTextBuffer_size (Text d3));
             let d4 = d3\<lparr>TextOffsets := text_offsets\<rparr>;
             let d5 = d4\<lparr>Text := ImGuiTextBuffer_append (Text d4) (c_str name @ [NUL])\<rparr>;
             quals \<leftarrow> push_back (Quals d5) qual;
             let d6 = d5\<lparr>Quals := quals\<rparr>;
             let id = hash (c_str name);
             let idx = Count d6;
             cnt \<leftarrow> c_int (Count d6 + 1);
             let d7 = d6\<lparr>Count := cnt\<rparr>;
             let d8 = d7\<lparr>Map := (Map d7)(id \<mapsto> idx)\<rparr>;
             d9 \<leftarrow> AppendTable mix64 d8 idx;
             Some (idx, d9) })"

text \<open>
  \<^verbatim>\<open>SetKeyColor(cmap, idx, value)\<close>. The index \<^verbatim>\<open>KeyOffsets[cmap] + idx\<close> is
  checked against the whole of \<^verbatim>\<open>Keys\<close>, not against the keys of \<open>cmap\<close>.
\<close>

definition SetKeyColor ::
  "bool \<Rightarrow> ImPlot3DColormapData \<Rightarrow> int \<Rightarrow> int \<Rightarrow> ImU32 \<Rightarrow> ImPlot3DColormapData option" where
  "SetKeyColor mix64 d cmap idx v =
     do { off \<leftarrow> vget (KeyOffsets d) cmap;
          ks \<leftarrow> vset (Keys d) (off + idx) v;
          RebuildTables mix64 (d\<lparr>Keys := ks\<rparr>) }"

text \<open>
  The keys and the dense table of a colormap as a caller reads them: the
  \<^verbatim>\<open>GetKeyCount(cmap)\<close> elements at \<^verbatim>\<open>GetKeys(cmap)\<close>, and the
  \<^verbatim>\<open>GetTableSize(cmap)\<close> elements at \<^verbatim>\<open>GetTable(cmap)\<close>.
\<close>

definition keys_of :: "ImPlot3DColormapData \<Rightarrow> int \<Rightarrow> ImU32 list option" where
  "keys_of d cmap =
     do { p \<leftarrow> GetKeys d cmap;
          n \<leftarrow> GetKeyCount d cmap;
          if 0 \<le> n \<and> p + n \<le> int (length (Keys d))
          then Some (take (nat n) (drop (nat p) (Keys d))) else None }"

definition table_of :: "ImPlot3DColormapData \<Rightarrow> int \<Rightarrow> ImU32 list option" where
  "table_of d cmap =
     do { p \<leftarrow> GetTable d cmap;
          n \<leftarrow> GetTableSize d cmap;
          if 0 \<le> n \<and> p + n \<le> int (length (Tables d))
          then Some (take (nat n) (drop (nat p) (Tables d))) else None }"

section \<open>The registry as a list of colormaps\<close>

text \<open>
  What the registry holds, said without offsets: a list of colormaps, each with its name,
  its keys and its flag. \<open>registry\<close> lays such a list out in the eleven fields the way
  \<^verbatim>\<open>Append\<close> does. The lemmas below show that every state the interface produces is
  the layout of such a list, so that a property of the fields can be read off the list.

  \<open>segment a b\<close>: the 255 blends between two adjacent keys; \<open>ramp ks\<close>: the dense
  table of a continuous colormap with keys \<open>ks\<close>.
\<close>

definition segment :: "bool \<Rightarrow> ImU32 \<Rightarrow> ImU32 \<Rightarrow> ImU32 list" where
  "segment mix64 a b = map (\<lambda>s. ImMixU32 mix64 a b (word_of_nat s)) [0 ..< 255]"

record colormap =
  cm_name :: string
  cm_keys :: "ImU32 list"
  cm_qual :: bool

definition ramp :: "bool \<Rightarrow> ImU32 list \<Rightarrow> ImU32 list" where
  "ramp mix64 ks =
     concat (map (\<lambda>j. segment mix64 (ks ! j) (ks ! Suc j)) [0 ..< length ks - 1]) @ [last ks]"

definition cm_table :: "bool \<Rightarrow> colormap \<Rightarrow> ImU32 list" where
  "cm_table mix64 c = (if cm_qual c then cm_keys c else ramp mix64 (cm_keys c))"

definition cm_table_size :: "colormap \<Rightarrow> int" where
  "cm_table_size c =
     (if cm_qual c then int (length (cm_keys c)) else 255 * (int (length (cm_keys c)) - 1) + 1)"

text \<open>
  \<open>offsets ns\<close>: where each of consecutive blocks of lengths \<open>ns\<close> starts;
  \<open>text_of\<close>: the names, each with its terminator, in an \<^verbatim>\<open>ImGuiTextBuffer\<close>;
  \<open>name_map\<close>: the hash of each name mapped to its index.
\<close>

definition offsets :: "nat list \<Rightarrow> int list" where
  "offsets ns = map (\<lambda>i. int (sum_list (take i ns))) [0 ..< length ns]"

definition text_of :: "string list \<Rightarrow> char list" where
  "text_of names = (if names = [] then [] else concat (map (\<lambda>n. n @ [NUL]) names) @ [NUL])"

definition name_map :: "(string \<Rightarrow> ImGuiID) \<Rightarrow> string list \<Rightarrow> (ImGuiID \<rightharpoonup> int)" where
  "name_map hash names = map_of (zip (map hash names) (map int [0 ..< length names]))"

text \<open>
  \<open>registry_upto cms n\<close> has the tables of the first \<open>n\<close> colormaps only: the
  state inside \<^verbatim>\<open>RebuildTables\<close> after \<open>n\<close> rounds, and inside \<^verbatim>\<open>Append\<close> before
  the call of \<^verbatim>\<open>_AppendTable\<close>.
\<close>

definition registry_upto ::
  "bool \<Rightarrow> (string \<Rightarrow> ImGuiID) \<Rightarrow> colormap list \<Rightarrow> nat \<Rightarrow> ImPlot3DColormapData" where
  "registry_upto mix64 hash cms n =
     \<lparr>Keys = concat (map cm_keys cms),
      KeyCounts = map (\<lambda>c. int (length (cm_keys c))) cms,
      KeyOffsets = offsets (map (\<lambda>c. length (cm_keys c)) cms),
      Tables = concat (map (cm_table mix64) (take n cms)),
      TableSizes = map cm_table_size (take n cms),
      TableOffsets = offsets (map (\<lambda>c. length (cm_table mix64 c)) (take n cms)),
      Text = text_of (map cm_name cms),
      TextOffsets = offsets (map (\<lambda>c. Suc (length (cm_name c))) cms),
      Quals = map cm_qual cms,
      Map = name_map hash (map cm_name cms),
      Count = int (length cms)\<rparr>"

definition registry :: "bool \<Rightarrow> (string \<Rightarrow> ImGuiID) \<Rightarrow> colormap list \<Rightarrow> ImPlot3DColormapData" where
  "registry mix64 hash cms = registry_upto mix64 hash cms (length cms)"

text \<open>
  The lists that occur: no two names with the same hash (\<^verbatim>\<open>Append\<close> refuses the
  second), no terminator inside a name, at least one key in every colormap
  (\<^verbatim>\<open>GetKeys\<close> in \<^verbatim>\<open>_AppendTable\<close> needs one), and no more than \<^verbatim>\<open>INT_MAX\<close>
  table entries in all.
\<close>

definition good :: "(string \<Rightarrow> ImGuiID) \<Rightarrow> colormap list \<Rightarrow> bool" where
  "good hash cms \<longleftrightarrow>
     distinct (map (\<lambda>c. hash (cm_name c)) cms) \<and>
     (\<forall>c \<in> set cms. NUL \<notin> set (cm_name c) \<and> cm_keys c \<noteq> []) \<and>
     sum_list (map cm_table_size cms) \<le> INT_MAX"

text \<open>The list after key \<open>j\<close> of colormap \<open>n\<close> has been set to \<open>v\<close>.\<close>

definition set_key :: "colormap list \<Rightarrow> nat \<Rightarrow> nat \<Rightarrow> ImU32 \<Rightarrow> colormap list" where
  "set_key cms n j v = cms[n := (cms ! n)\<lparr>cm_keys := (cm_keys (cms ! n))[j := v]\<rparr>]"

text \<open>
  The states of a registry that its interface produces: the constructor's, and from
  there any sequence of \<^verbatim>\<open>Append\<close>, \<^verbatim>\<open>SetKeyColor\<close> and \<^verbatim>\<open>RebuildTables\<close>
  calls that return, with any arguments.
\<close>

inductive reachable :: "bool \<Rightarrow> (string \<Rightarrow> ImGuiID) \<Rightarrow> ImPlot3DColormapData \<Rightarrow> bool"
  for mix64 :: bool and hash :: "string \<Rightarrow> ImGuiID" where
    ctor: "reachable mix64 hash ImPlot3DColormapData_ctor"
  | append:
      "reachable mix64 hash d \<Longrightarrow>
       Append mix64 hash d name keys count qual = Some (idx, d') \<Longrightarrow>
       reachable mix64 hash d'"
  | set_key_color:
      "reachable mix64 hash d \<Longrightarrow>
       SetKeyColor mix64 d cmap idx v = Some d' \<Longrightarrow>
       reachable mix64 hash d'"
  | rebuild:
      "reachable mix64 hash d \<Longrightarrow> RebuildTables mix64 d = Some d' \<Longrightarrow>
       reachable mix64 hash d'"

text \<open>
  A hash function and two small registries for the examples: after
  \<^verbatim>\<open>Append("A", {1, 2}, 2, true)\<close>, and after \<^verbatim>\<open>Append("BC", {3, 4, 5}, 3, true)\<close>
  on top of it.
\<close>

definition length_hash :: "string \<Rightarrow> ImGuiID" where
  "length_hash s = word_of_nat (length s)"

definition registry_A :: ImPlot3DColormapData where
  "registry_A =
     \<lparr>Keys = [1, 2], KeyCounts = [2], KeyOffsets = [0], Tables = [1, 2],
      TableSizes = [2], TableOffsets = [0], Text = [CHR ''A'', NUL, NUL],
      TextOffsets = [0], Quals = [True], Map = [1 \<mapsto> 0], Count = 1\<rparr>"


section \<open>Axes\<close>

text \<open>
  A \<^verbatim>\<open>float\<close>: a finite value (a rational; every binary32 number is one), an
  infinity or a NaN. Comparisons with a NaN are false.
\<close>

datatype f32 = Finite rat | PosInf | NegInf | NaN

fun f32_less :: "f32 \<Rightarrow> f32 \<Rightarrow> bool" where
  "f32_less NaN y = False"
| "f32_less x NaN = False"
| "f32_less (Finite a) (Finite b) = (a < b)"
| "f32_less (Finite a) PosInf = True"
| "f32_less (Finite a) NegInf = False"
| "f32_less PosInf y = False"
| "f32_less NegInf NegInf = False"
| "f32_less NegInf y = True"

fun f32_le :: "f32 \<Rightarrow> f32 \<Rightarrow> bool" where
  "f32_le NaN y = False"
| "f32_le x NaN = False"
| "f32_le (Finite a) (Finite b) = (a \<le> b)"
| "f32_le (Finite a) PosInf = True"
| "f32_le (Finite a) NegInf = False"
| "f32_le PosInf PosInf = True"
| "f32_le PosInf y = False"
| "f32_le NegInf y = True"

fun f32_finite :: "f32 \<Rightarrow> bool" where
  "f32_finite (Finite a) = True"
| "f32_finite x = False"

text \<open>
  Modelled from the spec: \<^verbatim>\<open>ImPlot3DRange\<close> is declared in \<^verbatim>\<open>implot3d.h\<close>, which
  is not among the sources. The spec's "range = [min, max]"; the constructor below
  assigns \<^verbatim>\<open>float\<close>s to \<^verbatim>\<open>Range.Min\<close> and \<^verbatim>\<open>Range.Max\<close>.
\<close>

record ImPlot3DRange =
  Min_r :: f32
  Max_r :: f32

text \<open>
  \<^verbatim>\<open>ImPlot3DAxis\<close>. The formatter and the locator are function pointers
  (\<open>None\<close> is \<^verbatim>\<open>nullptr\<close>); the formatter's \<^verbatim>\<open>void*\<close> data is part of the
  function.
\<close>

record ImPlot3DAxis =
  Flags :: int
  Range_a :: ImPlot3DRange
  LabelOffset :: int
  Ticker :: "f32 ImPlot3DTicker"
  Formatter :: "(f32 \<Rightarrow> nat \<Rightarrow> char list) option"
  Locator :: "(f32 ImPlot3DTicker \<Rightarrow> ImPlot3DRange \<Rightarrow> f32 ImPlot3DTicker) option"
  FitThisFrame :: bool
  FitExtents :: ImPlot3DRange

text \<open>The constructor; \<^verbatim>\<open>HUGE_VAL\<close> narrowed to \<^verbatim>\<open>float\<close> is \<open>+\<infinity>\<close>.\<close>

definition ImPlot3DAxis_ctor :: ImPlot3DAxis where
  "ImPlot3DAxis_ctor =
     \<lparr>Flags = 0,
      Range_a = \<lparr>Min_r = Finite 0, Max_r = Finite 1\<rparr>,
      LabelOffset = - 1,
      Ticker = \<lparr>Ticks = [], TextBuffer = []\<rparr>,
      Formatter = None,
      Locator = None,
      FitThisFrame = True,
      FitExtents = \<lparr>Min_r = PosInf, Max_r = NegInf\<rparr>\<rparr>"

text \<open>
  Modelled from the spec: \<^verbatim>\<open>ImPlot3DAxis::ExtendFit\<close> is declared in
  \<^verbatim>\<open>implot3d_internal.h\<close> and its body is not among the sources. The spec:
  "widens the fit-accumulator to include value".
\<close>

definition ExtendFit :: "ImPlot3DAxis \<Rightarrow> f32 \<Rightarrow> ImPlot3DAxis" where
  "ExtendFit a v =
     a\<lparr>FitExtents :=
         \<lparr>Min_r = (if f32_less v (Min_r (FitExtents a)) then v else Min_r (FitExtents a)),
          Max_r = (if f32_less (Max_r (FitExtents a)) v then v else Max_r (FitExtents a))\<rparr>\<rparr>"

text \<open>
  Modelled from the spec: "the accumulator is non-degenerate
  (\<open>runningMin <= runningMax\<close> and both finite)".
\<close>

definition non_degenerate :: "ImPlot3DRange \<Rightarrow> bool" where
  "non_degenerate r \<longleftrightarrow> f32_le (Min_r r) (Max_r r) \<and> f32_finite (Min_r r) \<and> f32_finite (Max_r r)"

text \<open>
  Modelled from the spec: \<^verbatim>\<open>ImPlot3DAxis::ApplyFit\<close> is declared in
  \<^verbatim>\<open>implot3d_internal.h\<close> and its body is not among the sources. The spec: "if
  the accumulator is non-degenerate, replace range with the accumulator; otherwise leave
  range unchanged. Always re-seeds the accumulator to \<open>[+\<infinity>, -\<infinity>]\<close> afterward,
  regardless of whether it applied."
\<close>

definition ApplyFit :: "ImPlot3DAxis \<Rightarrow> ImPlot3DAxis" where
  "ApplyFit a =
     (let a1 = (if non_degenerate (FitExtents a) then a\<lparr>Range_a := FitExtents a\<rparr> else a)
      in a1\<lparr>FitExtents := \<lparr>Min_r = PosInf, Max_r = NegInf\<rparr>\<rparr>)"

section \<open>Single precision\<close>

text \<open>
  \<^verbatim>\<open>LerpTable\<close> computes its index in \<^verbatim>\<open>float\<close>. The model is IEEE 754
  binary32 with the default rounding, every operation rounded to single precision (as
  compilers do on x86-64 and ARM64): a finite result is the exact result rounded to the
  nearest value with a 24-bit significand and an exponent of at least \<open>-149\<close>, ties to
  the even significand. Zero has no sign here; nothing below depends on it.

  \<open>rne q\<close>: the integer nearest to \<open>q\<close>, ties to even.
\<close>

definition rne :: "rat \<Rightarrow> int" where
  "rne q =
     (let n = \<lfloor>q\<rfloor>; r = q - of_int n
      in if r < 1 / 2 then n else if 1 / 2 < r then n + 1 else if even n then n else n + 1)"

text \<open>
  \<open>fexp x\<close>: the exponent of the unit in the last place of the binade of \<open>x\<close>, the
  least \<open>e \<ge> -149\<close> with \<open>\<bar>x\<bar> < 2\<^sup>e\<^sup>+\<^sup>2\<^sup>4\<close> (found by counting up from \<open>-149\<close>).
\<close>

fun fexp_from :: "nat \<Rightarrow> int \<Rightarrow> rat \<Rightarrow> int" where
  "fexp_from 0 e x = e"
| "fexp_from (Suc n) e x = (if \<bar>x\<bar> < 2 powi (e + 24) then e else fexp_from n (e + 1) x)"

definition fexp :: "rat \<Rightarrow> int" where
  "fexp x = fexp_from 254 (- 149) x"

text \<open>\<open>round32 x\<close>: \<open>x\<close> rounded to a multiple of \<open>2\<^sup>f\<^sup>e\<^sup>x\<^sup>p\<^sup> \<^sup>x\<close>.\<close>

definition round32 :: "rat \<Rightarrow> rat" where
  "round32 x = of_int (rne (x / 2 powi fexp x)) * 2 powi fexp x"

text \<open>The \<^verbatim>\<open>float\<close> nearest to a rational; beyond the largest finite value, an infinity.\<close>

definition to_f32 :: "rat \<Rightarrow> f32" where
  "to_f32 x =
     (let y = round32 x
      in if \<bar>y\<bar> < 2 powi 128 then Finite y else if 0 < y then PosInf else NegInf)"

text \<open>\<^verbatim>\<open>a * b\<close> and \<^verbatim>\<open>a + b\<close> on \<^verbatim>\<open>float\<close>.\<close>

fun f32_mul :: "f32 \<Rightarrow> f32 \<Rightarrow> f32" where
  "f32_mul NaN y = NaN"
| "f32_mul x NaN = NaN"
| "f32_mul (Finite a) (Finite b) = to_f32 (a * b)"
| "f32_mul (Finite a) PosInf = (if a = 0 then NaN else if 0 < a then PosInf else NegInf)"
| "f32_mul (Finite a) NegInf = (if a = 0 then NaN else if 0 < a then NegInf else PosInf)"
| "f32_mul PosInf (Finite b) = (if b = 0 then NaN else if 0 < b then PosInf else NegInf)"
| "f32_mul NegInf (Finite b) = (if b = 0 then NaN else if 0 < b then NegInf else PosInf)"
| "f32_mul PosInf PosInf = PosInf"
| "f32_mul PosInf NegInf = NegInf"
| "f32_mul NegInf PosInf = NegInf"
| "f32_mul NegInf NegInf = PosInf"

fun f32_add :: "f32 \<Rightarrow> f32 \<Rightarrow> f32" where
  "f32_add NaN y = NaN"
| "f32_add x NaN = NaN"
| "f32_add (Finite a) (Finite b) = to_f32 (a + b)"
| "f32_add (Finite a) y = y"
| "f32_add x (Finite b) = x"
| "f32_add PosInf PosInf = PosInf"
| "f32_add NegInf NegInf = NegInf"
| "f32_add PosInf NegInf = NaN"
| "f32_add NegInf PosInf = NaN"

text \<open>The conversion of an \<^verbatim>\<open>int\<close> operand to \<^verbatim>\<open>float\<close>.\<close>

definition f32_of_int :: "int \<Rightarrow> f32" where
  "f32_of_int n = to_f32 (of_int n)"

text \<open>
  \<^verbatim>\<open>(int)x\<close>: truncation towards zero. The conversion is undefined (\<open>None\<close>) for a
  NaN, an infinity and a value whose truncation is not an \<^verbatim>\<open>int\<close>.
\<close>

fun f32_to_int :: "f32 \<Rightarrow> int option" where
  "f32_to_int (Finite x) =
     (let n = (if 0 \<le> x then \<lfloor>x\<rfloor> else \<lceil>x\<rceil>)
      in if - (2 ^ 31) \<le> n \<and> n < 2 ^ 31 then Some n else None)"
| "f32_to_int x = None"

text \<open>The host's \<^verbatim>\<open>ImClamp(v, mn, mx)\<close>: \<^verbatim>\<open>(v < mn) ? mn : (v > mx) ? mx : v\<close>.\<close>

definition ImClamp :: "int \<Rightarrow> int \<Rightarrow> int \<Rightarrow> int" where
  "ImClamp v mn mx = (if v < mn then mn else if v > mx then mx else v)"

text \<open>
  \<^verbatim>\<open>LerpTable(cmap, t)\<close>. \<open>LerpTable_idx\<close> is the initialiser of \<^verbatim>\<open>idx\<close>:
  \<^verbatim>\<open>Quals[cmap] ? ImClamp((int)(siz * t), 0, siz - 1) : (int)((siz - 1) * t + 0.5f)\<close>.
\<close>

definition LerpTable_idx :: "bool \<Rightarrow> int \<Rightarrow> f32 \<Rightarrow> int option" where
  "LerpTable_idx qual siz t =
     (if qual then map_option (\<lambda>v. ImClamp v 0 (siz - 1)) (f32_to_int (f32_mul (f32_of_int siz) t))
      else f32_to_int (f32_add (f32_mul (f32_of_int (siz - 1)) t) (Finite (1 / 2))))"

definition LerpTable :: "ImPlot3DColormapData \<Rightarrow> int \<Rightarrow> f32 \<Rightarrow> ImU32 option" where
  "LerpTable d cmap t =
     do { off \<leftarrow> vget (TableOffsets d) cmap;
          siz \<leftarrow> vget (TableSizes d) cmap;
          qual \<leftarrow> vget (Quals d) cmap;
          idx \<leftarrow> LerpTable_idx qual siz t;
          vget (Tables d) (off + idx) }"

text \<open>
  Two registries: the spec's example, \<^verbatim>\<open>Append("RB", [0xFF0000FF, 0x0000FFFF], 2, false)\<close>
  on a fresh registry, and a fresh registry with one continuous colormap of 32898 keys.
\<close>

definition rb_registry :: ImPlot3DColormapData where
  "rb_registry =
     registry False length_hash
       [\<lparr>cm_name = ''RB'', cm_keys = [0xFF0000FF, 0x0000FFFF], cm_qual = False\<rparr>]"

definition big_keys :: "ImU32 list" where
  "big_keys = replicate 32898 0"

definition big_registry :: ImPlot3DColormapData where
  "big_registry =
     registry False length_hash [\<lparr>cm_name = ''big'', cm_keys = big_keys, cm_qual = False\<rparr>]"

text \<open>An array of 8421506 keys: one more than a continuous table can take.\<close>

definition huge_keys :: "ImU32 list" where
  "huge_keys = replicate 8421506 0"

section \<open>Ticker: insertion order\<close>

lemma AddTick_Ticks: "Ticks (snd (AddTick tk tick)) = Ticks tk @ [fst (AddTick tk tick)]"
  by (simp add: AddTick_def Let_def)

lemma AddTick_Idx: "Idx (fst (AddTick tk tick)) = int (length (Ticks tk))"
  by (simp add: AddTick_def Let_def)

lemma add_call_Ticks:
  assumes "add_call calc narrow tk c = Some (t, tk')"
  shows "Ticks tk' = Ticks tk @ [t] \<and> Idx t = int (length (Ticks tk))"
proof (cases c)
  case (ByLabel junk v major show_label label)
  with assms show ?thesis
    by (auto simp: AddTick_label_def AddTick_def Let_def split: option.splits if_splits)
next
  case (ByFormatter junk v major show_label formatter)
  with assms show ?thesis
    by (auto simp: AddTick_formatter_def AddTick_def Let_def split: option.splits if_splits)
next
  case (ByTick tick)
  with assms show ?thesis
    by (auto simp: AddTick_def Let_def)
qed

lemma text_at_append:
  "text_at (ImGuiTextBuffer_append buf (c_str l @ [NUL])) (ImGuiTextBuffer_size buf) \<noteq> None"
  by (cases buf)
    (simp_all add: text_at_def ImGuiTextBuffer_append_def ImGuiTextBuffer_size_def Let_def)

lemma AddTick_label_total:
  "\<exists>t tk'. AddTick_label calc narrow junk tk v major show_label label = Some (t, tk')"
proof (cases label)
  case None
  then show ?thesis
    by (simp add: AddTick_label_def Let_def prod_eq_iff)
next
  case (Some l)
  from text_at_append [of "TextBuffer tk" l] obtain s where
    "text_at (ImGuiTextBuffer_append (TextBuffer tk) (c_str l @ [NUL]))
       (ImGuiTextBuffer_size (TextBuffer tk)) = Some s"
    by blast
  with Some show ?thesis
    by (simp add: AddTick_label_def Let_def prod_eq_iff)
qed

lemma add_calls_Ticks:
  assumes "add_calls calc narrow tk cs = Some tk'"
  shows "\<exists>new. Ticks tk' = Ticks tk @ new \<and> length new = length cs \<and>
           map Idx new = map int [length (Ticks tk) ..< length (Ticks tk) + length cs]"
  using assms
proof (induction cs arbitrary: tk)
  case Nil
  then show ?case by simp
next
  case (Cons c cs)
  from Cons.prems obtain t tk1 where
    step: "add_call calc narrow tk c = Some (t, tk1)" and
    rest: "add_calls calc narrow tk1 cs = Some tk'"
    by (auto split: option.splits)
  from add_call_Ticks [OF step] have
    t1: "Ticks tk1 = Ticks tk @ [t]" and ti: "Idx t = int (length (Ticks tk))"
    by simp_all
  from Cons.IH [OF rest] obtain new where
    n1: "Ticks tk' = Ticks tk1 @ new" and n2: "length new = length cs" and
    n3: "map Idx new = map int [length (Ticks tk1) ..< length (Ticks tk1) + length cs]"
    by blast
  have "Ticks tk' = Ticks tk @ (t # new)"
    using n1 t1 by simp
  moreover have "length (t # new) = length (c # cs)"
    using n2 by simp
  moreover have "map Idx (t # new) =
      map int [length (Ticks tk) ..< length (Ticks tk) + length (c # cs)]"
    using n3 t1 ti by (simp add: upt_rec [of "length (Ticks tk)"] del: upt_Suc)
  ultimately show ?case by blast
qed

lemma add_calls_append:
  "add_calls calc narrow tk (cs @ cs') =
     (case add_calls calc narrow tk cs of
        None \<Rightarrow> None
      | Some tk1 \<Rightarrow> add_calls calc narrow tk1 cs')"
  by (induction cs arbitrary: tk) (auto split: option.splits)

lemma add_calls_prefix:
  assumes "add_calls calc narrow tk (cs @ cs') = Some tk'"
  shows "\<exists>tk1. add_calls calc narrow tk cs = Some tk1 \<and>
           Ticks tk1 = take (length (Ticks tk) + length cs) (Ticks tk')"
proof -
  from assms obtain tk1 where
    a: "add_calls calc narrow tk cs = Some tk1" and
    b: "add_calls calc narrow tk1 cs' = Some tk'"
    by (auto simp: add_calls_append split: option.splits)
  from add_calls_Ticks [OF a] obtain new where
    n: "Ticks tk1 = Ticks tk @ new" "length new = length cs"
    by blast
  from add_calls_Ticks [OF b] obtain new' where
    n': "Ticks tk' = Ticks tk1 @ new'"
    by blast
  from n n' have "Ticks tk1 = take (length (Ticks tk) + length cs) (Ticks tk')"
    by simp
  with a show ?thesis by blast
qed

text \<open>
  Claim C8. Start from a ticker that has just been \<^verbatim>\<open>Reset\<close> and make any sequence
  of \<^verbatim>\<open>AddTick\<close> calls, through any of the three overloads. Then the ticker holds
  one tick per call, the \<open>i\<close>-th of them has \<^verbatim>\<open>Idx == i\<close>, and the ticks present
  after the first \<open>n\<close> calls are exactly the first \<open>n\<close> ticks of the final ticker,
  unchanged and in the same order: ticks are appended, never moved or rewritten.
\<close>

theorem AddTick_Idx_is_insertion_order:
  assumes "add_calls calc narrow (Ticker_Reset tk0) cs = Some tk"
  shows "map Idx (Ticks tk) = map int [0 ..< length cs] \<and>
         (\<forall>n \<le> length cs. \<exists>tk1.
            add_calls calc narrow (Ticker_Reset tk0) (take n cs) = Some tk1 \<and>
            Ticks tk1 = take n (Ticks tk))"
proof
  from add_calls_Ticks [OF assms] show "map Idx (Ticks tk) = map int [0 ..< length cs]"
    by (auto simp: Ticker_Reset_def)
next
  show "\<forall>n \<le> length cs. \<exists>tk1.
          add_calls calc narrow (Ticker_Reset tk0) (take n cs) = Some tk1 \<and>
          Ticks tk1 = take n (Ticks tk)"
  proof (intro allI impI)
    fix n
    assume n: "n \<le> length cs"
    have "add_calls calc narrow (Ticker_Reset tk0) (take n cs @ drop n cs) = Some tk"
      using assms by simp
    from add_calls_prefix [OF this] n show "\<exists>tk1.
        add_calls calc narrow (Ticker_Reset tk0) (take n cs) = Some tk1 \<and>
        Ticks tk1 = take n (Ticks tk)"
      by (auto simp: Ticker_Reset_def min_def split: if_splits)
  qed
qed

theorem AddTick_Idx_is_insertion_order_witness:
  "add_calls (\<lambda>s. (rat_of_nat (length s), 1)) (\<lambda>v. v)
      (Ticker_Reset \<lparr>Ticks = [], TextBuffer = []\<rparr>)
      [ByLabel 7 (5 :: rat) True True (Some ''ab''),
       ByTick \<lparr>PlotPos = 6, Major = False, ShowLabel = False, LabelSize = (0, 0),
               TextOffset = - 1, Idx = 40\<rparr>,
       ByFormatter 9 8 True True (Some (\<lambda>v n. ''c'' @ [NUL]))]
    = Some \<lparr>Ticks =
        [\<lparr>PlotPos = 5, Major = True, ShowLabel = True, LabelSize = (2, 1),
           TextOffset = 0, Idx = 0\<rparr>,
         \<lparr>PlotPos = 6, Major = False, ShowLabel = False, LabelSize = (0, 0),
           TextOffset = - 1, Idx = 1\<rparr>,
         \<lparr>PlotPos = 8, Major = True, ShowLabel = True, LabelSize = (1, 1),
           TextOffset = 3, Idx = 2\<rparr>],
        TextBuffer = ''ab'' @ [NUL] @ ''c'' @ [NUL, NUL]\<rparr>
   \<and> map Idx (Ticks \<lparr>Ticks =
        [\<lparr>PlotPos = 5 :: rat, Major = True, ShowLabel = True, LabelSize = (2, 1),
           TextOffset = 0, Idx = 0\<rparr>,
         \<lparr>PlotPos = 6, Major = False, ShowLabel = False, LabelSize = (0, 0),
           TextOffset = - 1, Idx = 1\<rparr>,
         \<lparr>PlotPos = 8, Major = True, ShowLabel = True, LabelSize = (1, 1),
           TextOffset = 3, Idx = 2\<rparr>],
        TextBuffer = ''ab'' @ [NUL] @ ''c'' @ [NUL, NUL]\<rparr>) = [0, 1, 2]"
proof -
  have run: "add_calls (\<lambda>s. (rat_of_nat (length s), 1)) (\<lambda>v. v)
      (Ticker_Reset \<lparr>Ticks = [], TextBuffer = []\<rparr>)
      [ByLabel 7 (5 :: rat) True True (Some ''ab''),
       ByTick \<lparr>PlotPos = 6, Major = False, ShowLabel = False, LabelSize = (0, 0),
               TextOffset = - 1, Idx = 40\<rparr>,
       ByFormatter 9 8 True True (Some (\<lambda>v n. ''c'' @ [NUL]))]
    = Some \<lparr>Ticks =
        [\<lparr>PlotPos = 5, Major = True, ShowLabel = True, LabelSize = (2, 1),
           TextOffset = 0, Idx = 0\<rparr>,
         \<lparr>PlotPos = 6, Major = False, ShowLabel = False, LabelSize = (0, 0),
           TextOffset = - 1, Idx = 1\<rparr>,
         \<lparr>PlotPos = 8, Major = True, ShowLabel = True, LabelSize = (1, 1),
           TextOffset = 3, Idx = 2\<rparr>],
        TextBuffer = ''ab'' @ [NUL] @ ''c'' @ [NUL, NUL]\<rparr>"
    by (simp add: Ticker_Reset_def AddTick_label_def AddTick_formatter_def AddTick_def
        ImPlot3DTick_ctor_def ImGuiTextBuffer_size_def ImGuiTextBuffer_append_def
        text_at_def c_str_def NUL_def IMPLOT3D_LABEL_MAX_SIZE_def Let_def)
  from AddTick_Idx_is_insertion_order [OF run] show ?thesis
    using run by simp
qed

section \<open>Colormap tables\<close>

lemma mul256: "(x :: 'a::len word) * 256 = push_bit 8 x"
  by (simp add: push_bit_eq_mult)

lemma lo_mask32: "(0x00ff00ff :: 32 word) = mask 8 OR push_bit 16 (mask 8)"
  by (simp add: mask_eq_exp_minus_1 push_bit_eq_mult)

lemma hi_mask32: "(0xff00ff00 :: 32 word) = push_bit 8 (mask 8) OR push_bit 24 (mask 8)"
  by (simp add: mask_eq_exp_minus_1 push_bit_eq_mult)

lemma lo_mask64: "(0x00ff00ff :: 64 word) = mask 8 OR push_bit 16 (mask 8)"
  by (simp add: mask_eq_exp_minus_1 push_bit_eq_mult)

lemma hi_mask64: "(0xff00ff00 :: 64 word) = push_bit 8 (mask 8) OR push_bit 24 (mask 8)"
  by (simp add: mask_eq_exp_minus_1 push_bit_eq_mult)

lemma mix32_bits:
  fixes a :: "32 word"
  defines "lo \<equiv> mask 8 OR push_bit 16 (mask 8)"
  defines "hi \<equiv> push_bit 8 (mask 8) OR push_bit 24 (mask 8)"
  shows "(push_bit 8 (drop_bit 8 (a AND hi)) AND hi) OR
         drop_bit 8 (push_bit 8 (a AND lo) AND hi) = a"
    (is "?lhs = a")
proof (rule bit_word_eqI)
  fix n :: nat
  have r: "8 \<le> n \<Longrightarrow> 8 + (n - 8) = n" by simp
  assume "n < LENGTH(32)"
  then show "bit ?lhs n = bit a n"
    unfolding lo_def hi_def
    by (cases "n < 8") (auto simp: bit_simps not_less not_le r)
qed

lemma mix64_bits:
  fixes a :: "32 word"
  defines "lo \<equiv> mask 8 OR push_bit 16 (mask 8)"
  defines "hi \<equiv> push_bit 8 (mask 8) OR push_bit 24 (mask 8)"
  defines "hi' \<equiv> (push_bit 8 (mask 8) OR push_bit 24 (mask 8) :: 64 word)"
  defines "al \<equiv> (ucast (a AND lo) :: 64 word) OR push_bit 24 (ucast (a AND hi) :: 64 word)"
  shows "(ucast ((drop_bit 32 (push_bit 8 al) AND hi') OR
                 drop_bit 8 (push_bit 8 al AND hi')) :: 32 word) = a"
    (is "?lhs = a")
proof (rule bit_word_eqI)
  fix n :: nat
  have r: "8 \<le> n \<Longrightarrow> 8 + (n - 8) = n" by simp
  assume "n < LENGTH(32)"
  then show "bit ?lhs n = bit a n"
    unfolding lo_def hi_def hi'_def al_def
    by (cases "n < 8") (auto simp: bit_simps not_less not_le r)
qed

lemma ImMixU32_zero: "ImMixU32 mix64 a b 0 = a"
proof (cases mix64)
  case True
  have "ImMixU32 True a b 0 =
      ucast ((drop_bit 32 (((ucast (a AND 0x00ff00ff) :: 64 word)
                OR push_bit 24 (ucast (a AND 0xff00ff00) :: 64 word)) * 256) AND 0xff00ff00) OR
             drop_bit 8 ((((ucast (a AND 0x00ff00ff) :: 64 word)
                OR push_bit 24 (ucast (a AND 0xff00ff00) :: 64 word)) * 256) AND 0xff00ff00))"
    by (simp add: ImMixU32_def Let_def)
  also have "\<dots> = a"
    using mix64_bits [of a] unfolding mul256 lo_mask32 hi_mask32 hi_mask64 .
  finally show ?thesis using True by simp
next
  case False
  have "ImMixU32 False a b 0 =
      (drop_bit 8 (a AND 0xff00ff00) * 256 AND 0xff00ff00) OR
      drop_bit 8 ((a AND 0x00ff00ff) * 256 AND 0xff00ff00)"
    by (simp add: ImMixU32_def Let_def)
  also have "\<dots> = a"
    using mix32_bits [of a] unfolding mul256 lo_mask32 hi_mask32 .
  finally show ?thesis using False by simp
qed

lemma vget_Some: "0 \<le> i \<Longrightarrow> i < int (length xs) \<Longrightarrow> vget xs i = Some (xs ! nat i)"
  by (simp add: vget_def)

lemma vget_nat: "n < length xs \<Longrightarrow> vget xs (int n) = Some (xs ! n)"
  by (simp add: vget_def)

lemma push_back_Some: "int (length xs) < INT_MAX \<Longrightarrow> push_back xs x = Some (xs @ [x])"
  by (simp add: push_back_def)

lemma push_back_None: "INT_MAX \<le> int (length xs) \<Longrightarrow> push_back xs x = None"
  by (simp add: push_back_def)

lemma c_int_Some: "0 \<le> x \<Longrightarrow> x \<le> INT_MAX \<Longrightarrow> c_int x = Some x"
  by (simp add: c_int_def INT_MIN_def)

lemma c_int_None: "INT_MAX < x \<Longrightarrow> c_int x = None"
  by (simp add: c_int_def)

text \<open>
  The loops in closed form. \<open>push_loop\<close> returns exactly when every element it reads
  is there and the destination has room for all of them.
\<close>

lemma push_loop_eq:
  "push_loop src base n i dst =
     (if n \<le> i then Some dst
      else if 0 \<le> base + i \<and> base + n \<le> int (length src) \<and>
              int (length dst) + (n - i) \<le> INT_MAX
      then Some (dst @ take (nat (n - i)) (drop (nat (base + i)) src))
      else None)"
proof (induction src base n i dst rule: push_loop.induct)
  case (1 src base n i dst)
  show ?case
  proof (cases "i < n")
    case False
    then show ?thesis by (simp add: push_loop.simps)
  next
    case True
    let ?k = "nat (base + i)"
    show ?thesis
    proof (cases "0 \<le> base + i \<and> base + i < int (length src)")
      case False
      then have "vget src (base + i) = None" by (auto simp: vget_def)
      moreover have "\<not> (0 \<le> base + i \<and> base + n \<le> int (length src) \<and>
          int (length dst) + (n - i) \<le> INT_MAX)"
        using False True by linarith
      ultimately show ?thesis
        using True by (simp add: push_loop.simps [of src base n i dst])
    next
      case inr: True
      then have g: "vget src (base + i) = Some (src ! ?k)" by (simp add: vget_def)
      have k: "?k < length src" using inr by linarith
      show ?thesis
      proof (cases "int (length dst) < INT_MAX")
        case False
        then have "push_back dst (src ! ?k) = None" by (simp add: push_back_def)
        moreover have "\<not> (0 \<le> base + i \<and> base + n \<le> int (length src) \<and>
            int (length dst) + (n - i) \<le> INT_MAX)"
          using False True by linarith
        ultimately show ?thesis
          using True g by (simp add: push_loop.simps [of src base n i dst])
      next
        case room: True
        then have pb: "push_back dst (src ! ?k) = Some (dst @ [src ! ?k])"
          by (simp add: push_back_def)
        note ih = "1.IH" [OF True g pb]
        have n1: "nat (n - i) = Suc (nat (n - (i + 1)))" using True by linarith
        have n2: "nat (base + (i + 1)) = Suc ?k" using inr by linarith
        have t: "take (nat (n - i)) (drop ?k src) =
            src ! ?k # take (nat (n - (i + 1))) (drop (Suc ?k) src)"
          unfolding n1 using k by (simp add: Cons_nth_drop_Suc [symmetric])
        show ?thesis
        proof (cases "n \<le> i + 1")
          case last: True
          then have e: "n = i + 1" using True by simp
          have "push_loop src base n (i + 1) (dst @ [src ! ?k]) = Some (dst @ [src ! ?k])"
            using ih last by simp
          moreover have "base + n \<le> int (length src)" using inr e by linarith
          moreover have "int (length dst) + (n - i) \<le> INT_MAX" using room e by linarith
          moreover have "take (nat (n - i)) (drop ?k src) = [src ! ?k]"
            unfolding t using e by simp
          ultimately show ?thesis
            using True g pb inr by (simp add: push_loop.simps [of src base n i dst])
        next
          case more: False
          have c: "(0 \<le> base + (i + 1) \<and> base + n \<le> int (length src) \<and>
              int (length (dst @ [src ! ?k])) + (n - (i + 1)) \<le> INT_MAX) =
            (0 \<le> base + i \<and> base + n \<le> int (length src) \<and>
              int (length dst) + (n - i) \<le> INT_MAX)"
            using inr by auto
          have "push_loop src base n (i + 1) (dst @ [src ! ?k]) =
              (if 0 \<le> base + i \<and> base + n \<le> int (length src) \<and>
                  int (length dst) + (n - i) \<le> INT_MAX
               then Some ((dst @ [src ! ?k]) @
                      take (nat (n - (i + 1))) (drop (nat (base + (i + 1))) src))
               else None)"
            using ih more unfolding c by simp
          then show ?thesis
            using True g pb t n2 by (simp add: push_loop.simps [of src base n i dst])
        qed
      qed
    qed
  qed
qed

lemma mix_loop_eq:
  assumes "vget ks (base + i) = Some a" "vget ks (base + (i + 1)) = Some b" "0 \<le> s"
    and "s \<le> 255" "int (length tbl) + (255 - s) \<le> INT_MAX"
  shows "mix_loop mix64 ks base i s tbl =
           Some (tbl @ map (\<lambda>s. ImMixU32 mix64 a b (word_of_nat s)) [nat s ..< 255])"
  using assms
proof (induction mix64 ks base i s tbl rule: mix_loop.induct)
  case (1 mix64 ks base i s tbl)
  show ?case
  proof (cases "s < 255")
    case False
    then show ?thesis by (simp add: mix_loop.simps)
  next
    case True
    let ?x = "ImMixU32 mix64 a b (word_of_int s)"
    have pb: "push_back tbl ?x = Some (tbl @ [?x])"
      using True "1.prems"(5) by (simp add: push_back_def)
    have ih: "mix_loop mix64 ks base i (s + 1) (tbl @ [?x]) =
        Some ((tbl @ [?x]) @ map (\<lambda>s. ImMixU32 mix64 a b (word_of_nat s)) [nat (s + 1) ..< 255])"
      using "1.IH" [OF True "1.prems"(1) "1.prems"(2) pb] "1.prems" True by simp
    have u: "[nat s ..< 255] = nat s # [nat (s + 1) ..< 255]"
      using True "1.prems"(3) by (simp add: upt_conv_Cons nat_add_distrib)
    have w: "(word_of_nat (nat s) :: ImU32) = word_of_int s"
      using "1.prems"(3) by simp
    show ?thesis
      using True "1.prems"(1,2) pb ih
      by (simp add: mix_loop.simps [of mix64 ks base i s tbl] u w)
  qed
qed

lemma key_loop_eq:
  assumes "0 \<le> base" "0 \<le> i" "base + key_count \<le> int (length ks)"
    and "int (length tbl) + 255 * (key_count - 1 - i) \<le> INT_MAX"
  shows "key_loop mix64 ks base key_count i tbl =
           Some (tbl @ concat (map (\<lambda>j. segment mix64 (ks ! (nat base + j)) (ks ! (nat base + Suc j)))
                                   [nat i ..< nat (key_count - 1)]))"
  using assms
proof (induction mix64 ks base key_count i tbl rule: key_loop.induct)
  case (1 mix64 ks base key_count i tbl)
  show ?case
  proof (cases "i < key_count - 1")
    case False
    then show ?thesis by (simp add: key_loop.simps)
  next
    case True
    let ?seg = "segment mix64 (ks ! (nat base + nat i)) (ks ! (nat base + Suc (nat i)))"
    have a: "vget ks (base + i) = Some (ks ! (nat base + nat i))"
      using True "1.prems" by (simp add: vget_def nat_add_distrib)
    have b: "vget ks (base + (i + 1)) = Some (ks ! (nat base + Suc (nat i)))"
      using True "1.prems" by (simp add: vget_def nat_add_distrib)
    have "255 * 1 \<le> 255 * (key_count - 1 - i)"
      using True by (intro mult_left_mono) simp_all
    then have room: "int (length tbl) + (255 - 0) \<le> INT_MAX"
      using "1.prems"(4) by simp
    have m: "mix_loop mix64 ks base i 0 tbl = Some (tbl @ ?seg)"
      using mix_loop_eq [OF a b _ _ room, of mix64] by (simp add: segment_def)
    have room': "int (length (tbl @ ?seg)) + 255 * (key_count - 1 - (i + 1)) \<le> INT_MAX"
      using "1.prems"(4) by (simp add: algebra_simps segment_def)
    have ih: "key_loop mix64 ks base key_count (i + 1) (tbl @ ?seg) =
        Some ((tbl @ ?seg) @
          concat (map (\<lambda>j. segment mix64 (ks ! (nat base + j)) (ks ! (nat base + Suc j)))
                      [nat (i + 1) ..< nat (key_count - 1)]))"
      using "1.IH" [OF True m _ _ _ room'] "1.prems" by simp
    have u: "[nat i ..< nat (key_count - 1)] = nat i # [nat (i + 1) ..< nat (key_count - 1)]"
      using True "1.prems"(2) by (simp add: upt_conv_Cons nat_add_distrib)
    show ?thesis
      using True m ih by (simp add: key_loop.simps [of mix64 ks base key_count i tbl] u)
  qed
qed

lemma offsets_length [simp]: "length (offsets ns) = length ns"
  by (simp add: offsets_def)

lemma offsets_nth: "i < length ns \<Longrightarrow> offsets ns ! i = int (sum_list (take i ns))"
  by (simp add: offsets_def)

lemma offsets_snoc: "offsets (ns @ [n]) = offsets ns @ [int (sum_list ns)]"
  by (simp add: offsets_def)

lemma concat_split:
  assumes "n < length xss"
  shows "concat xss = concat (take n xss) @ xss ! n @ concat (drop (Suc n) xss)"
proof -
  have "xss = take n xss @ xss ! n # drop (Suc n) xss"
    using assms by (simp add: id_take_nth_drop [symmetric])
  then have "concat xss = concat (take n xss @ xss ! n # drop (Suc n) xss)"
    by simp
  then show ?thesis by simp
qed

lemma length_concat_take: "length (concat (take n xss)) = sum_list (take n (map length xss))"
  by (simp add: length_concat take_map)

lemma concat_drop_prefix:
  assumes "n < length xss"
  shows "drop (sum_list (take n (map length xss))) (concat xss) =
           xss ! n @ concat (drop (Suc n) xss)"
proof -
  have "drop (length (concat (take n xss))) (concat xss) = xss ! n @ concat (drop (Suc n) xss)"
    by (subst concat_split [OF assms]) simp
  then show ?thesis by (simp add: length_concat_take)
qed

lemma concat_segment:
  assumes "n < length xss"
  shows "take (length (xss ! n)) (drop (sum_list (take n (map length xss))) (concat xss)) = xss ! n"
  by (simp add: concat_drop_prefix [OF assms])

lemma concat_nth_segment:
  assumes "n < length xss" "j < length (xss ! n)"
  shows "concat xss ! (sum_list (take n (map length xss)) + j) = xss ! n ! j"
proof -
  have "concat xss ! (sum_list (take n (map length xss)) + j) =
      drop (sum_list (take n (map length xss))) (concat xss) ! j"
  proof (rule nth_drop [symmetric])
    have "length (concat xss) = length (concat (take n xss)) + length (xss ! n) +
        length (concat (drop (Suc n) xss))"
      by (subst concat_split [OF assms(1)]) simp
    then show "sum_list (take n (map length xss)) \<le> length (concat xss)"
      by (simp add: length_concat_take)
  qed
  also have "\<dots> = xss ! n ! j"
    using assms by (simp add: concat_drop_prefix nth_append)
  finally show ?thesis .
qed

lemma segment_end_le:
  assumes "n < length xss"
  shows "sum_list (take n (map length xss)) + length (xss ! n) \<le> length (concat xss)"
proof -
  have "length (concat xss) = length (concat (take n xss)) + length (xss ! n) +
      length (concat (drop (Suc n) xss))"
    by (subst concat_split [OF assms]) simp
  then show ?thesis by (simp add: length_concat_take)
qed

lemma length_segment [simp]: "length (segment mix64 a b) = 255"
  by (simp add: segment_def)

lemma length_ramp: "length (ramp mix64 ks) = 255 * (length ks - 1) + 1"
  by (simp add: ramp_def length_concat comp_def sum_list_triv)

lemma cm_table_size_eq:
  "cm_keys c \<noteq> [] \<Longrightarrow> cm_table_size c = int (length (cm_table mix64 c))"
  by (cases "cm_keys c") (auto simp: cm_table_size_def cm_table_def length_ramp)

lemma cm_table_size_ge:
  assumes "cm_keys c \<noteq> []"
  shows "int (length (cm_keys c)) \<le> cm_table_size c" and "1 \<le> cm_table_size c"
  using assms by (cases "cm_keys c"; simp add: cm_table_size_def)+

text \<open>
  With at least one key in every colormap a table is never shorter than its keys: the
  number of colormaps and the number of keys are bounded by the number of table entries.
\<close>

lemma sizes_sum:
  assumes "\<forall>c \<in> set cms. cm_keys c \<noteq> []"
  shows "int (length cms) \<le> sum_list (map cm_table_size cms)"
    and "int (length (concat (map cm_keys cms))) \<le> sum_list (map cm_table_size cms)"
    and "int (length (concat (map (cm_table mix64) cms))) = sum_list (map cm_table_size cms)"
  using assms
proof (induction cms)
  case Nil
  {
    case 1 show ?case by simp
  next
    case 2 show ?case by simp
  next
    case 3 show ?case by simp
  }
next
  case (Cons c cms)
  {
    case 1
    with Cons.IH(1) cm_table_size_ge(2) [of c] show ?case by simp
  next
    case 2
    with Cons.IH(2) cm_table_size_ge(1) [of c] show ?case by simp
  next
    case 3
    with Cons.IH(3) cm_table_size_eq [of c mix64] show ?case by simp
  }
qed

lemma sizes_take:
  assumes "\<forall>c \<in> set cms. cm_keys c \<noteq> []"
  shows "sum_list (map cm_table_size (take n cms)) \<le> sum_list (map cm_table_size cms)"
proof -
  have "\<forall>c \<in> set (drop n cms). cm_keys c \<noteq> []"
    using assms by (auto dest: in_set_dropD)
  from sizes_sum(1) [OF this] have "0 \<le> sum_list (map cm_table_size (drop n cms))"
    by linarith
  moreover have "sum_list (map cm_table_size cms) =
      sum_list (map cm_table_size (take n cms)) + sum_list (map cm_table_size (drop n cms))"
    by (metis append_take_drop_id map_append sum_list_append)
  ultimately show ?thesis by linarith
qed

lemma hd_ramp: "ks \<noteq> [] \<Longrightarrow> hd (ramp mix64 ks) = hd ks"
proof (cases "length ks = 1")
  case True
  assume "ks \<noteq> []"
  with True show ?thesis by (cases ks) (simp_all add: ramp_def)
next
  case False
  assume "ks \<noteq> []"
  with False have l: "0 < length ks - 1" by (cases ks) auto
  then have "[0 ..< length ks - 1] = 0 # [1 ..< length ks - 1]"
    by (simp add: upt_conv_Cons)
  then have "hd (ramp mix64 ks) = hd (segment mix64 (ks ! 0) (ks ! 1))"
    by (simp add: ramp_def segment_def upt_conv_Cons)
  also have "\<dots> = ImMixU32 mix64 (ks ! 0) (ks ! 1) 0"
    by (simp add: segment_def upt_conv_Cons)
  also have "\<dots> = hd ks"
    using \<open>ks \<noteq> []\<close> by (simp add: ImMixU32_zero hd_conv_nth)
  finally show ?thesis .
qed

lemma last_ramp: "last (ramp mix64 ks) = last ks"
  by (simp add: ramp_def)

text \<open>
  One round of \<^verbatim>\<open>RebuildTables\<close>, and the last step of \<^verbatim>\<open>Append\<close>:
  \<^verbatim>\<open>_AppendTable(n)\<close> on a registry that has the tables of the first \<open>n\<close>
  colormaps, when the table of colormap \<open>n\<close> still fits.
\<close>

lemma AppendTable_registry_upto:
  assumes n: "n < length cms" and ne: "\<forall>c \<in> set cms. cm_keys c \<noteq> []"
    and b: "sum_list (map cm_table_size (take (Suc n) cms)) \<le> INT_MAX"
  shows "AppendTable mix64 (registry_upto mix64 hash cms n) (int n) =
           Some (registry_upto mix64 hash cms (Suc n))"
proof -
  let ?d = "registry_upto mix64 hash cms n"
  let ?c = "cms ! n"
  let ?ks = "cm_keys ?c"
  let ?kss = "map cm_keys cms"
  let ?b = "sum_list (take n (map length ?kss))"
  let ?S = "sum_list (map cm_table_size (take n cms))"
  have cin: "?c \<in> set cms" using n by simp
  with ne have nek: "?ks \<noteq> []" by blast
  have kn: "?kss ! n = ?ks" using n by simp
  have nk: "n < length ?kss" using n by simp
  have ml: "map length ?kss = map (\<lambda>c. length (cm_keys c)) cms"
    by (simp add: comp_def)
  have tk: "take (Suc n) cms = take n cms @ [?c]"
    using n by (simp add: take_Suc_conv_app_nth)
  have net: "\<forall>c \<in> set (take n cms). cm_keys c \<noteq> []"
    using ne by (auto dest: in_set_takeD)
  have S: "?S + cm_table_size ?c \<le> INT_MAX"
    using b by (simp add: tk)
  have c1: "1 \<le> cm_table_size ?c" by (rule cm_table_size_ge(2) [OF nek])
  have "int (length (take n cms)) \<le> ?S" by (rule sizes_sum(1) [OF net])
  then have nS: "int n \<le> ?S" using n by simp
  then have nlt: "int n < INT_MAX" using S c1 by linarith
  have tl: "int (length (Tables ?d)) = ?S"
    using sizes_sum(3) [OF net, of mix64] by (simp add: registry_upto_def)
  have tl': "length (Tables ?d) = sum_list (map (\<lambda>c. length (cm_table mix64 c)) (take n cms))"
    by (simp add: registry_upto_def length_concat comp_def)
  have kc: "GetKeyCount ?d (int n) = Some (int (length ?ks))"
    using n by (simp add: GetKeyCount_def registry_upto_def vget_nat)
  have K: "Keys ?d = concat ?kss"
    by (simp add: registry_upto_def)
  have le: "?b + length ?ks \<le> length (concat ?kss)"
    using segment_end_le [OF nk] kn by simp
  have ko: "vget (KeyOffsets ?d) (int n) = Some (int ?b)"
    using n by (simp add: registry_upto_def vget_nat offsets_nth comp_def)
  have "?b < length (concat ?kss)" using le nek by (cases ?ks) simp_all
  then have gk: "GetKeys ?d (int n) = Some (int ?b)"
    unfolding GetKeys_def ko K by (simp add: vptr_def)
  have lo: "length (TableOffsets ?d) = n" "length (TableSizes ?d) = n"
    using n by (simp_all add: registry_upto_def)
  have po: "push_back (TableOffsets ?d) (int (length (Tables ?d))) =
      Some (TableOffsets ?d @ [int (length (Tables ?d))])"
    by (rule push_back_Some) (use nlt lo in simp)
  have ps: "push_back (TableSizes ?d) x = Some (TableSizes ?d @ [x])" for x
    by (rule push_back_Some) (use nlt lo in simp)
  have q: "IsQual (?d\<lparr>TableOffsets := TableOffsets ?d @ [int (length (Tables ?d))]\<rparr>) (int n) =
      Some (cm_qual ?c)"
    using n by (simp add: IsQual_def registry_upto_def vget_nat)
  show ?thesis
  proof (cases "cm_qual ?c")
    case True
    have ts: "cm_table_size ?c = int (length ?ks)" "cm_table mix64 ?c = ?ks"
      using True by (simp_all add: cm_table_size_def cm_table_def)
    have "push_loop (concat ?kss) (int ?b) (int (length ?ks)) 0 (Tables ?d) =
        Some (Tables ?d @ take (nat (int (length ?ks) - 0)) (drop (nat (int ?b + 0)) (concat ?kss)))"
      unfolding push_loop_eq [of "concat ?kss" "int ?b" "int (length ?ks)" 0 "Tables ?d"]
      using nek le S tl ts(1) by simp
    then have pl: "push_loop (concat ?kss) (int ?b) (int (length ?ks)) 0 (Tables ?d) =
        Some (Tables ?d @ ?ks)"
      using concat_segment [OF nk] kn by simp
    show ?thesis
      unfolding AppendTable_def Let_def kc gk po
      using True q pl K ts tl' ps
      by (simp add: registry_upto_def tk offsets_snoc)
  next
    case False
    let ?k = "int (length ?ks)"
    have ts: "cm_table_size ?c = 255 * (?k - 1) + 1"
        "cm_table mix64 ?c = ramp mix64 ?ks"
      using False by (simp_all add: cm_table_size_def cm_table_def)
    have k1: "1 \<le> ?k" using nek by (cases ?ks) simp_all
    have S0: "0 \<le> ?S" using nS by linarith
    have m: "0 \<le> ?k - 1" "?k - 1 \<le> 255 * (?k - 1)" by (use k1 in presburger)+
    have kb: "255 * (?k - 1) + 1 \<le> INT_MAX" using S S0 ts(1) by simp
    have i1: "c_int (?k - 1) = Some (?k - 1)"
      using m kb by (intro c_int_Some) simp_all
    have i2: "c_int (255 * (?k - 1)) = Some (255 * (?k - 1))"
      using m kb by (intro c_int_Some) simp_all
    have i3: "c_int (255 * (?k - 1) + 1) = Some (255 * (?k - 1) + 1)"
      using m kb by (intro c_int_Some) simp_all
    have i4: "c_int (int (length (Tables ?d)) + (255 * (?k - 1) + 1)) =
        Some (int (length (Tables ?d)) + (255 * (?k - 1) + 1))"
      using m S S0 ts(1) unfolding tl by (intro c_int_Some) simp_all
    have "key_loop mix64 (concat ?kss) (int ?b) ?k 0 (Tables ?d) =
        Some (Tables ?d @ concat (map (\<lambda>j. segment mix64 (concat ?kss ! (nat (int ?b) + j))
                                              (concat ?kss ! (nat (int ?b) + Suc j)))
                    [nat 0 ..< nat (?k - 1)]))"
      by (rule key_loop_eq) (use le S tl ts(1) in simp_all)
    moreover have "map (\<lambda>j. segment mix64 (concat ?kss ! (nat (int ?b) + j))
                                              (concat ?kss ! (nat (int ?b) + Suc j)))
                    [nat 0 ..< nat (?k - 1)] =
        map (\<lambda>j. segment mix64 (?ks ! j) (?ks ! Suc j)) [0 ..< length ?ks - 1]"
    proof -
      have r: "nat (?k - 1) = length ?ks - 1" by simp
      have "\<And>j. j < length ?ks - 1 \<Longrightarrow>
          segment mix64 (concat ?kss ! (?b + j)) (concat ?kss ! (?b + Suc j)) =
          segment mix64 (?ks ! j) (?ks ! Suc j)"
      proof -
        fix j assume j: "j < length ?ks - 1"
        then have "j < length (?kss ! n)" "Suc j < length (?kss ! n)"
          using kn by simp_all
        from concat_nth_segment [OF nk this(1)] concat_nth_segment [OF nk this(2)] kn
        show "segment mix64 (concat ?kss ! (?b + j)) (concat ?kss ! (?b + Suc j)) =
          segment mix64 (?ks ! j) (?ks ! Suc j)"
          by simp
      qed
      then show ?thesis by (simp add: r)
    qed
    ultimately have kl: "key_loop mix64 (concat ?kss) (int ?b) ?k 0 (Tables ?d) =
        Some (Tables ?d @ concat (map (\<lambda>j. segment mix64 (?ks ! j) (?ks ! Suc j))
                [0 ..< length ?ks - 1]))"
      by simp
    have "length ?ks - 1 < length (?kss ! n)" using nek kn by simp
    from concat_nth_segment [OF nk this]
    have "concat ?kss ! (?b + (length ?ks - 1)) = last ?ks"
      using nek kn by (simp add: last_conv_nth)
    moreover have "nat (int ?b + (?k - 1)) = ?b + (length ?ks - 1)"
      using nek by (cases ?ks) simp_all
    ultimately have lk: "vget (concat ?kss) (int ?b + (?k - 1)) = Some (last ?ks)"
      using le nek by (cases ?ks) (simp_all add: vget_def)
    have "int (length (Tables ?d @ concat (map (\<lambda>j. segment mix64 (?ks ! j) (?ks ! Suc j))
                [0 ..< length ?ks - 1]))) = ?S + 255 * (?k - 1)"
      using tl k1 by (simp add: length_concat comp_def sum_list_triv of_nat_diff)
    then have pt: "push_back (Tables ?d @ concat (map (\<lambda>j. segment mix64 (?ks ! j) (?ks ! Suc j))
                [0 ..< length ?ks - 1])) (last ?ks) =
        Some ((Tables ?d @ concat (map (\<lambda>j. segment mix64 (?ks ! j) (?ks ! Suc j))
                [0 ..< length ?ks - 1])) @ [last ?ks])"
      using S ts(1) by (intro push_back_Some) linarith
    show ?thesis
      unfolding AppendTable_def Let_def kc gk po
      using False q kl lk K ts tl' ps i1 i2 i3 i4 pt
      by (simp add: registry_upto_def tk offsets_snoc ramp_def)
  qed
qed

text \<open>
  When the table of the new colormap does not fit, \<^verbatim>\<open>_AppendTable\<close> does not
  return: the qualitative loop overflows \<^verbatim>\<open>Tables\<close>, the continuous branch
  overflows \<^verbatim>\<open>max_size\<close> or \<^verbatim>\<open>off + max_size\<close>.
\<close>

lemma AppendTable_overflow:
  assumes ne: "\<forall>c \<in> set cms. cm_keys c \<noteq> []" and nek: "cm_keys c \<noteq> []"
    and o: "INT_MAX < sum_list (map cm_table_size cms) + cm_table_size c"
  shows "AppendTable mix64 (registry_upto mix64 hash (cms @ [c]) (length cms)) (int (length cms)) =
           None"
proof -
  let ?cms = "cms @ [c]"
  let ?n = "length cms"
  let ?d = "registry_upto mix64 hash ?cms ?n"
  let ?ks = "cm_keys c"
  let ?k = "int (length ?ks)"
  let ?kss = "map cm_keys ?cms"
  let ?b = "sum_list (map (\<lambda>c. length (cm_keys c)) cms)"
  let ?S = "sum_list (map cm_table_size cms)"
  have tl: "int (length (Tables ?d)) = ?S"
    using sizes_sum(3) [OF ne, of mix64] by (simp add: registry_upto_def)
  have kc: "GetKeyCount ?d (int ?n) = Some ?k"
    by (simp add: GetKeyCount_def registry_upto_def vget_def nth_append)
  have K: "Keys ?d = concat (map cm_keys cms) @ ?ks"
    by (simp add: registry_upto_def)
  have lK: "length (concat (map cm_keys cms)) = ?b"
    by (simp add: length_concat comp_def)
  have ko: "vget (KeyOffsets ?d) (int ?n) = Some (int ?b)"
    by (simp add: registry_upto_def vget_def offsets_snoc nth_append)
  have gk: "GetKeys ?d (int ?n) = Some (int ?b)"
    unfolding GetKeys_def ko K using nek lK by (simp add: vptr_def)
  have k1: "1 \<le> ?k" using nek by (cases ?ks) simp_all
  show ?thesis
  proof (cases "push_back (TableOffsets ?d) (int (length (Tables ?d)))")
    case None
    then show ?thesis unfolding AppendTable_def Let_def kc gk by simp
  next
    case (Some offs)
    have q: "IsQual (?d\<lparr>TableOffsets := offs\<rparr>) (int ?n) = Some (cm_qual c)"
      by (simp add: IsQual_def registry_upto_def vget_def nth_append)
    show ?thesis
    proof (cases "cm_qual c")
      case True
      then have "cm_table_size c = ?k" by (simp add: cm_table_size_def)
      with o tl have "\<not> int (length (Tables ?d)) + (?k - 0) \<le> INT_MAX" by simp
      moreover have "\<not> ?k \<le> 0" using nek by simp
      ultimately have "push_loop (Keys ?d) (int ?b) ?k 0 (Tables ?d) = None"
        unfolding push_loop_eq [of "Keys ?d" "int ?b" ?k 0 "Tables ?d"] by simp
      then show ?thesis
        unfolding AppendTable_def Let_def kc gk Some using True q by simp
    next
      case False
      then have ts: "cm_table_size c = 255 * (?k - 1) + 1" by (simp add: cm_table_size_def)
      have "c_int (?k - 1) = Some (?k - 1) \<or> c_int (?k - 1) = None"
        by (simp add: c_int_def)
      moreover have "c_int (255 * (?k - 1)) = Some (255 * (?k - 1)) \<or> c_int (255 * (?k - 1)) = None"
        by (simp add: c_int_def)
      moreover have "c_int (255 * (?k - 1) + 1) = Some (255 * (?k - 1) + 1) \<or>
          c_int (255 * (?k - 1) + 1) = None"
        by (simp add: c_int_def)
      moreover have "c_int (int (length (Tables ?d)) + (255 * (?k - 1) + 1)) = None"
        by (rule c_int_None) (use o tl ts in simp)
      ultimately show ?thesis
        unfolding AppendTable_def Let_def kc gk Some using False q by auto
    qed
  qed
qed

lemma rebuild_loop_registry:
  assumes "good hash cms" "n \<le> length cms"
  shows "rebuild_loop mix64 (registry_upto mix64 hash cms n) (int n) =
           Some (registry mix64 hash cms)"
  using assms(2)
proof (induction "length cms - n" arbitrary: n)
  case 0
  then have "n = length cms" by simp
  then show ?case
    by (simp add: rebuild_loop.simps registry_def registry_upto_def)
next
  case (Suc k)
  then have n: "n < length cms" by simp
  have ne: "\<forall>c \<in> set cms. cm_keys c \<noteq> []"
    using assms(1) by (simp add: good_def)
  have "sum_list (map cm_table_size (take (Suc n) cms)) \<le> sum_list (map cm_table_size cms)"
    by (rule sizes_take [OF ne])
  then have b: "sum_list (map cm_table_size (take (Suc n) cms)) \<le> INT_MAX"
    using assms(1) by (simp add: good_def)
  have c: "int n < Count (registry_upto mix64 hash cms n)"
    using n by (simp add: registry_upto_def)
  have "rebuild_loop mix64 (registry_upto mix64 hash cms (Suc n)) (int (Suc n)) =
      Some (registry mix64 hash cms)"
    using Suc.hyps(1) [of "Suc n"] Suc.hyps(2) n by simp
  then show ?case
    using c AppendTable_registry_upto [OF n ne b, of mix64 hash]
    by (simp add: rebuild_loop.simps [of mix64 "registry_upto mix64 hash cms n"] add.commute)
qed

lemma RebuildTables_registry:
  assumes "good hash cms"
    and "d\<lparr>Tables := [], TableSizes := [], TableOffsets := []\<rparr> = registry_upto mix64 hash cms 0"
  shows "RebuildTables mix64 d = Some (registry mix64 hash cms)"
  using rebuild_loop_registry [OF assms(1), of 0 mix64] assms(2)
  by (simp add: RebuildTables_def)

lemma text_of_size:
  "ImGuiTextBuffer_size (text_of names) = int (sum_list (map (\<lambda>n. Suc (length n)) names))"
  by (simp add: ImGuiTextBuffer_size_def text_of_def length_concat comp_def)

lemma text_of_append:
  "ImGuiTextBuffer_append (text_of names) (n @ [NUL]) = text_of (names @ [n])"
  by (simp add: ImGuiTextBuffer_append_def text_of_def Let_def)

lemma c_str_NUL_free: "NUL \<notin> set (c_str bytes)"
  unfolding c_str_def by (induction bytes) auto

lemma c_str_terminated: "NUL \<notin> set s \<Longrightarrow> c_str (s @ NUL # rest) = s"
  unfolding c_str_def by (induction s) auto

lemma text_at_text_of:
  assumes i: "i < length names" and z: "NUL \<notin> set (names ! i)"
  shows "text_at (text_of names) (int (sum_list (take i (map (\<lambda>n. Suc (length n)) names)))) =
           Some (names ! i)"
proof -
  let ?xss = "map (\<lambda>n. n @ [NUL]) names"
  let ?o = "sum_list (take i (map (\<lambda>n. Suc (length n)) names))"
  have il: "i < length ?xss" using i by simp
  have ml: "map length ?xss = map (\<lambda>n. Suc (length n)) names"
    by (simp add: comp_def)
  have d: "drop ?o (concat ?xss) = ?xss ! i @ concat (drop (Suc i) ?xss)"
    using concat_drop_prefix [OF il, unfolded ml] .
  have le: "?o + length (?xss ! i) \<le> length (concat ?xss)"
    using segment_end_le [OF il, unfolded ml] .
  have ne: "names \<noteq> []" using i by auto
  have t: "text_of names = concat ?xss @ [NUL]"
    using ne by (simp add: text_of_def)
  have dd: "drop ?o (text_of names) = names ! i @ NUL # (concat (drop (Suc i) ?xss) @ [NUL])"
    using d le i by (simp add: t)
  show ?thesis
    unfolding text_at_def nat_int dd
    using le i z by (simp add: c_str_terminated t)
qed

lemma name_map_None: "name_map hash names k = None \<longleftrightarrow> k \<notin> hash ` set names"
proof -
  have "map fst (zip (map hash names) (map int [0 ..< length names])) = map hash names"
    by (rule map_fst_zip) simp
  then have "fst ` set (zip (map hash names) (map int [0 ..< length names])) = hash ` set names"
    by (metis set_map)
  then show ?thesis
    by (simp add: name_map_def map_of_eq_None_iff)
qed

lemma name_map_snoc:
  assumes "hash n \<notin> hash ` set names"
  shows "name_map hash (names @ [n]) = (name_map hash names)(hash n \<mapsto> int (length names))"
proof -
  have "name_map hash (names @ [n]) =
      map_of (zip (map hash names) (map int [0 ..< length names]) @ [(hash n, int (length names))])"
    by (simp add: name_map_def)
  also have "\<dots> = [hash n \<mapsto> int (length names)] ++ name_map hash names"
    by (simp add: name_map_def map_of_append del: map_append)
  also have "\<dots> = (name_map hash names)(hash n \<mapsto> int (length names))"
  proof
    fix k
    have "name_map hash names (hash n) = None"
      using assms by (simp add: name_map_None)
    then show "([hash n \<mapsto> int (length names)] ++ name_map hash names) k =
        ((name_map hash names)(hash n \<mapsto> int (length names))) k"
      by (auto simp: map_add_def split: option.splits)
  qed
  finally show ?thesis .
qed

lemma name_map_Some_range:
  assumes "name_map hash names k = Some v"
  shows "0 \<le> v \<and> v < int (length names)"
proof -
  from assms have "(k, v) \<in> set (zip (map hash names) (map int [0 ..< length names]))"
    by (simp add: name_map_def map_of_SomeD)
  then have "v \<in> set (map int [0 ..< length names])"
    by (rule set_zip_rightD)
  then show ?thesis by auto
qed

lemma name_map_nth:
  assumes "distinct (map hash names)" "i < length names"
  shows "name_map hash names (hash (names ! i)) = Some (int i)"
proof -
  have "map_of (zip (map hash names) (map int [0 ..< length names])) (map hash names ! i) =
      Some (map int [0 ..< length names] ! i)"
    by (rule map_of_zip_nth) (use assms in simp_all)
  then show ?thesis using assms(2) by (simp add: name_map_def)
qed

lemma GetIndex_registry:
  "GetIndex hash (registry mix64 hash cms) name =
     (case name_map hash (map cm_name cms) (hash (c_str name)) of None \<Rightarrow> - 1 | Some v \<Rightarrow> v)"
  by (simp add: GetIndex_def registry_def registry_upto_def)

lemma GetIndex_registry_unregistered:
  "GetIndex hash (registry mix64 hash cms) name = - 1 \<longleftrightarrow>
     hash (c_str name) \<notin> (\<lambda>c. hash (cm_name c)) ` set cms"
proof (cases "name_map hash (map cm_name cms) (hash (c_str name))")
  case None
  then have "hash (c_str name) \<notin> hash ` set (map cm_name cms)"
    by (simp add: name_map_None)
  with None show ?thesis
    by (simp add: GetIndex_registry image_image)
next
  case (Some v)
  from name_map_Some_range [OF Some] have "v \<noteq> - 1" by simp
  moreover from Some have "hash (c_str name) \<in> hash ` set (map cm_name cms)"
    using name_map_None [of hash "map cm_name cms" "hash (c_str name)"] by simp
  ultimately show ?thesis using Some
    by (simp add: GetIndex_registry image_image)
qed

lemma registry_Count [simp]: "Count (registry mix64 hash cms) = int (length cms)"
  by (simp add: registry_def registry_upto_def)

lemma registry_empty: "registry mix64 hash [] = ImPlot3DColormapData_ctor"
  by (simp add: registry_def registry_upto_def ImPlot3DColormapData_ctor_def offsets_def
      text_of_def name_map_def)

lemma registry_strip:
  "(registry mix64 hash cms)\<lparr>Tables := [], TableSizes := [], TableOffsets := []\<rparr> =
     registry_upto mix64 hash cms 0"
  by (simp add: registry_def registry_upto_def offsets_def)


lemma AppendTable_no_keys:
  assumes "GetKeys d cmap = None"
  shows "AppendTable mix64 d cmap = None"
  using assms by (cases "GetKeyCount d cmap") (simp_all add: AppendTable_def)

text \<open>
  \<^verbatim>\<open>Append\<close> of a name that is not registered, in closed form: it returns exactly
  when the caller's array holds the \<open>count > 0\<close> keys it is said to hold and the new
  table still fits, and then the registry is the old list with the new colormap at its
  end.
\<close>

lemma Append_registry:
  assumes g: "good hash cms"
    and u: "GetIndex hash (registry mix64 hash cms) name = - 1"
  shows "Append mix64 hash (registry mix64 hash cms) name keys count qual =
           (if 0 < count \<and> count \<le> int (length keys) \<and>
               sum_list (map cm_table_size cms) +
                 cm_table_size \<lparr>cm_name = c_str name, cm_keys = take (nat count) keys,
                                cm_qual = qual\<rparr> \<le> INT_MAX
            then Some (int (length cms),
                       registry mix64 hash
                         (cms @ [\<lparr>cm_name = c_str name, cm_keys = take (nat count) keys,
                                  cm_qual = qual\<rparr>]))
            else None)"
proof -
  let ?c = "\<lparr>cm_name = c_str name, cm_keys = take (nat count) keys, cm_qual = qual\<rparr>"
  let ?cms = "cms @ [?c]"
  let ?d = "registry mix64 hash cms"
  let ?S = "sum_list (map cm_table_size cms)"
  have ne: "\<forall>c \<in> set cms. cm_keys c \<noteq> []" using g by (simp add: good_def)
  have Sb: "?S \<le> INT_MAX" using g by (simp add: good_def)
  have K: "Keys ?d = concat (map cm_keys cms)" by (simp add: registry_def registry_upto_def)
  have lS: "int (length cms) \<le> ?S" by (rule sizes_sum(1) [OF ne])
  have kS: "int (length (Keys ?d)) \<le> ?S" unfolding K by (rule sizes_sum(2) [OF ne])
  have len: "length (KeyOffsets ?d) = length cms" "length (KeyCounts ?d) = length cms"
      "length (TextOffsets ?d) = length cms" "length (Quals ?d) = length cms"
    by (simp_all add: registry_def registry_upto_def)
  have nh: "hash (c_str name) \<notin> (\<lambda>c. hash (cm_name c)) ` set cms"
    using u by (simp add: GetIndex_registry_unregistered)
  then have nh': "hash (c_str name) \<notin> hash ` set (map cm_name cms)"
    by (simp add: image_image)
  show ?thesis
  proof (cases "int (length cms) < INT_MAX")
    case False
    then have "push_back (KeyOffsets ?d) x = None" for x
      by (simp add: push_back_def len)
    moreover have "\<not> (0 < count \<and> count \<le> int (length keys) \<and> ?S + cm_table_size ?c \<le> INT_MAX)"
    proof
      assume a: "0 < count \<and> count \<le> int (length keys) \<and> ?S + cm_table_size ?c \<le> INT_MAX"
      then have "cm_keys ?c \<noteq> []" by auto
      from cm_table_size_ge(2) [OF this] a lS False show False by linarith
    qed
    ultimately show ?thesis using u by (simp add: Append_def)
  next
    case room: True
    have pb: "push_back (KeyOffsets ?d) x1 = Some (KeyOffsets ?d @ [x1])"
        "push_back (KeyCounts ?d) x2 = Some (KeyCounts ?d @ [x2])"
        "push_back (TextOffsets ?d) x3 = Some (TextOffsets ?d @ [x3])"
        "push_back (Quals ?d) x4 = Some (Quals ?d @ [x4])" for x1 x2 x3 x4
      using room by (simp_all add: push_back_def len)
    have cnt: "c_int (Count ?d + 1) = Some (int (length cms) + 1)"
      using room by (simp add: c_int_def INT_MIN_def)
    have cnt0: "Count ?d = int (length cms)" by simp
    show ?thesis
    proof (cases "0 < count \<and> count \<le> int (length keys)")
      case False
      then consider "count \<le> 0" | "int (length keys) < count" by linarith
      then have "Append mix64 hash ?d name keys count qual = None"
      proof cases
        case 1
        then have pl: "push_loop keys 0 count 0 (Keys ?d) = Some (Keys ?d)"
          by (simp add: push_loop_eq)
        have "GetKeys
            (?d\<lparr>KeyOffsets := KeyOffsets ?d @ [int (length (Keys ?d))],
                 KeyCounts := KeyCounts ?d @ [count],
                 TextOffsets := TextOffsets ?d @ [ImGuiTextBuffer_size (Text ?d)],
                 Text := ImGuiTextBuffer_append (Text ?d) (c_str name @ [NUL]),
                 Quals := Quals ?d @ [qual],
                 Count := int (length cms) + 1,
                 Map := (Map ?d)(hash (c_str name) \<mapsto> int (length cms))\<rparr>) (int (length cms)) = None"
          by (simp add: GetKeys_def vget_def vptr_def len nth_append)
        from AppendTable_no_keys [OF this, of mix64] show ?thesis
          unfolding Append_def Let_def using u pb pl cnt cnt0
          by (cases "c_int (int (length (Keys ?d)) + count)") simp_all
      next
        case 2
        then have "push_loop keys 0 count 0 (Keys ?d) = None"
          by (simp add: push_loop_eq)
        then show ?thesis
          unfolding Append_def Let_def using u pb
          by (cases "c_int (int (length (Keys ?d)) + count)") simp_all
      qed
      with False show ?thesis by auto
    next
      case True
      let ?ks = "take (nat count) keys"
      have kl: "int (length ?ks) = count" using True by (auto simp: min_def)
      have nek: "cm_keys ?c \<noteq> []" using True by auto
      have st: "?d\<lparr>KeyOffsets := KeyOffsets ?d @ [int (length (Keys ?d))],
                   KeyCounts := KeyCounts ?d @ [count],
                   Keys := Keys ?d @ ?ks,
                   TextOffsets := TextOffsets ?d @ [ImGuiTextBuffer_size (Text ?d)],
                   Text := ImGuiTextBuffer_append (Text ?d) (c_str name @ [NUL]),
                   Quals := Quals ?d @ [qual],
                   Count := int (length cms) + 1,
                   Map := (Map ?d)(hash (c_str name) \<mapsto> int (length cms))\<rparr> =
                registry_upto mix64 hash ?cms (length cms)"
        using kl
        by (simp add: registry_def registry_upto_def offsets_snoc text_of_size text_of_append
            name_map_snoc [OF nh'] length_concat comp_def)
      show ?thesis
      proof (cases "?S + cm_table_size ?c \<le> INT_MAX")
        case fit: True
        have "int (length (cm_keys ?c)) \<le> cm_table_size ?c"
          by (rule cm_table_size_ge(1) [OF nek])
        then have kb: "int (length (Keys ?d)) + count \<le> INT_MAX"
          using kS fit kl by simp
        then have ci: "c_int (int (length (Keys ?d)) + count) = Some (int (length (Keys ?d)) + count)"
          using True by (intro c_int_Some) simp_all
        have pl: "push_loop keys 0 count 0 (Keys ?d) = Some (Keys ?d @ ?ks)"
          using True kb by (simp add: push_loop_eq)
        have "\<forall>c \<in> set ?cms. cm_keys c \<noteq> []" using ne nek by auto
        moreover have "sum_list (map cm_table_size (take (Suc (length cms)) ?cms)) \<le> INT_MAX"
          using fit by simp
        ultimately have at:
          "AppendTable mix64 (registry_upto mix64 hash ?cms (length cms)) (int (length cms)) =
             Some (registry_upto mix64 hash ?cms (Suc (length cms)))"
          by (intro AppendTable_registry_upto) simp_all
        have "Append mix64 hash ?d name keys count qual =
            Some (int (length cms), registry mix64 hash ?cms)"
          unfolding Append_def Let_def
          using u pb ci pl cnt cnt0 st at by (simp add: registry_def)
        with True fit show ?thesis by simp
      next
        case over: False
        then have "INT_MAX < ?S + cm_table_size ?c" by simp
        from AppendTable_overflow [OF ne nek this, of mix64 hash]
        have at: "AppendTable mix64 (registry_upto mix64 hash ?cms (length cms))
            (int (length cms)) = None" .
        have "push_loop keys 0 count 0 (Keys ?d) = Some (Keys ?d @ ?ks) \<or>
            push_loop keys 0 count 0 (Keys ?d) = None"
          using True by (simp add: push_loop_eq)
        then have "Append mix64 hash ?d name keys count qual = None"
          unfolding Append_def Let_def
          using u pb cnt cnt0 st at
          by (cases "c_int (int (length (Keys ?d)) + count)") auto
        with over show ?thesis by simp
      qed
    qed
  qed
qed

lemma Append_registry_good:
  assumes g: "good hash cms"
    and u: "GetIndex hash (registry mix64 hash cms) name = - 1"
    and c: "0 < count" "count \<le> int (length keys)"
    and b: "sum_list (map cm_table_size cms) +
              cm_table_size \<lparr>cm_name = c_str name, cm_keys = take (nat count) keys,
                             cm_qual = qual\<rparr> \<le> INT_MAX"
  shows "good hash (cms @ [\<lparr>cm_name = c_str name, cm_keys = take (nat count) keys,
                            cm_qual = qual\<rparr>])"
proof -
  have nh: "hash (c_str name) \<notin> (\<lambda>c. hash (cm_name c)) ` set cms"
    using u by (simp add: GetIndex_registry_unregistered)
  have "take (nat count) keys \<noteq> []" using c by auto
  with g nh b show ?thesis by (auto simp: good_def c_str_NUL_free)
qed

lemma Append_registry_dup:
  assumes "GetIndex hash (registry mix64 hash cms) name \<noteq> - 1"
  shows "Append mix64 hash (registry mix64 hash cms) name keys count qual =
           Some (- 1, registry mix64 hash cms)"
  using assms by (simp add: Append_def)

lemma GetKeyCount_registry:
  "n < length cms \<Longrightarrow>
     GetKeyCount (registry mix64 hash cms) (int n) = Some (int (length (cm_keys (cms ! n))))"
  by (simp add: GetKeyCount_def registry_def registry_upto_def vget_nat)

lemma GetTableSize_registry:
  "n < length cms \<Longrightarrow>
     GetTableSize (registry mix64 hash cms) (int n) = Some (cm_table_size (cms ! n))"
  by (simp add: GetTableSize_def registry_def registry_upto_def vget_nat)

lemma GetKeys_registry:
  assumes n: "n < length cms" and ne: "cm_keys (cms ! n) \<noteq> []"
  shows "GetKeys (registry mix64 hash cms) (int n) =
           Some (int (sum_list (take n (map (\<lambda>c. length (cm_keys c)) cms))))"
proof -
  let ?kss = "map cm_keys cms"
  have nk: "n < length ?kss" using n by simp
  have ml: "map length ?kss = map (\<lambda>c. length (cm_keys c)) cms" by (simp add: comp_def)
  have le: "sum_list (take n (map (\<lambda>c. length (cm_keys c)) cms)) + length (?kss ! n)
      \<le> length (concat ?kss)"
    using segment_end_le [OF nk, unfolded ml] .
  have o: "vget (KeyOffsets (registry mix64 hash cms)) (int n) =
      Some (int (sum_list (take n (map (\<lambda>c. length (cm_keys c)) cms))))"
    using n by (simp add: registry_def registry_upto_def vget_nat offsets_nth)
  have K: "Keys (registry mix64 hash cms) = concat ?kss"
    by (simp add: registry_def registry_upto_def)
  have "0 < length (?kss ! n)" using n ne by simp
  with le have "sum_list (take n (map (\<lambda>c. length (cm_keys c)) cms)) < length (concat ?kss)"
    by linarith
  then show ?thesis
    unfolding GetKeys_def o K by (simp add: vptr_def)
qed

lemma keys_of_registry:
  assumes n: "n < length cms" and ne: "cm_keys (cms ! n) \<noteq> []"
  shows "keys_of (registry mix64 hash cms) (int n) = Some (cm_keys (cms ! n))"
proof -
  let ?kss = "map cm_keys cms"
  have nk: "n < length ?kss" using n by simp
  have ml: "map length ?kss = map (\<lambda>c. length (cm_keys c)) cms" by (simp add: comp_def)
  have d: "take (length (?kss ! n))
      (drop (sum_list (take n (map (\<lambda>c. length (cm_keys c)) cms))) (concat ?kss)) = ?kss ! n"
    using concat_segment [OF nk, unfolded ml] .
  have le: "sum_list (take n (map (\<lambda>c. length (cm_keys c)) cms)) + length (?kss ! n)
      \<le> length (concat ?kss)"
    using segment_end_le [OF nk, unfolded ml] .
  have K: "Keys (registry mix64 hash cms) = concat ?kss"
    by (simp add: registry_def registry_upto_def)
  show ?thesis
    unfolding keys_of_def GetKeys_registry [OF n ne] GetKeyCount_registry [OF n] K
    using le d n by (simp del: of_nat_add add: of_nat_add [symmetric])
qed

lemma GetKeyColor_registry:
  assumes n: "n < length cms" and j: "j < length (cm_keys (cms ! n))"
  shows "GetKeyColor (registry mix64 hash cms) (int n) (int j) = Some (cm_keys (cms ! n) ! j)"
proof -
  let ?kss = "map cm_keys cms"
  let ?o = "sum_list (take n (map (\<lambda>c. length (cm_keys c)) cms))"
  have nk: "n < length ?kss" using n by simp
  have jk: "j < length (?kss ! n)" using n j by simp
  have ml: "map length ?kss = map (\<lambda>c. length (cm_keys c)) cms" by (simp add: comp_def)
  have le: "?o + length (?kss ! n) \<le> length (concat ?kss)"
    using segment_end_le [OF nk, unfolded ml] .
  have e: "concat ?kss ! (?o + j) = ?kss ! n ! j"
    using concat_nth_segment [OF nk jk, unfolded ml] .
  have o: "vget (KeyOffsets (registry mix64 hash cms)) (int n) = Some (int ?o)"
    using n by (simp add: registry_def registry_upto_def vget_nat offsets_nth)
  have K: "Keys (registry mix64 hash cms) = concat ?kss"
    by (simp add: registry_def registry_upto_def)
  have "vget (concat ?kss) (int (?o + j)) = Some (concat ?kss ! (?o + j))"
    by (rule vget_nat) (use le jk in linarith)
  then show ?thesis
    unfolding GetKeyColor_def o K using e n by simp
qed

lemma GetTable_registry:
  assumes n: "n < length cms" and ne: "cm_table mix64 (cms ! n) \<noteq> []"
  shows "GetTable (registry mix64 hash cms) (int n) =
           Some (int (sum_list (take n (map (\<lambda>c. length (cm_table mix64 c)) cms))))"
proof -
  let ?tss = "map (cm_table mix64) cms"
  have nk: "n < length ?tss" using n by simp
  have ml: "map length ?tss = map (\<lambda>c. length (cm_table mix64 c)) cms" by (simp add: comp_def)
  have le: "sum_list (take n (map (\<lambda>c. length (cm_table mix64 c)) cms)) + length (?tss ! n)
      \<le> length (concat ?tss)"
    using segment_end_le [OF nk, unfolded ml] .
  have o: "vget (TableOffsets (registry mix64 hash cms)) (int n) =
      Some (int (sum_list (take n (map (\<lambda>c. length (cm_table mix64 c)) cms))))"
    using n by (simp add: registry_def registry_upto_def vget_nat offsets_nth)
  have K: "Tables (registry mix64 hash cms) = concat ?tss"
    by (simp add: registry_def registry_upto_def)
  have "0 < length (?tss ! n)" using n ne by simp
  with le have "sum_list (take n (map (\<lambda>c. length (cm_table mix64 c)) cms)) < length (concat ?tss)"
    by linarith
  then show ?thesis
    unfolding GetTable_def o K by (simp add: vptr_def)
qed

lemma cm_table_nonempty: "cm_keys c \<noteq> [] \<Longrightarrow> cm_table mix64 c \<noteq> []"
  by (simp add: cm_table_def ramp_def)

lemma table_of_registry:
  assumes n: "n < length cms" and ne: "cm_keys (cms ! n) \<noteq> []"
  shows "table_of (registry mix64 hash cms) (int n) = Some (cm_table mix64 (cms ! n))"
proof -
  let ?tss = "map (cm_table mix64) cms"
  have nk: "n < length ?tss" using n by simp
  have ml: "map length ?tss = map (\<lambda>c. length (cm_table mix64 c)) cms" by (simp add: comp_def)
  have d: "take (length (?tss ! n))
      (drop (sum_list (take n (map (\<lambda>c. length (cm_table mix64 c)) cms))) (concat ?tss)) =
      ?tss ! n"
    using concat_segment [OF nk, unfolded ml] .
  have le: "sum_list (take n (map (\<lambda>c. length (cm_table mix64 c)) cms)) + length (?tss ! n)
      \<le> length (concat ?tss)"
    using segment_end_le [OF nk, unfolded ml] .
  have K: "Tables (registry mix64 hash cms) = concat ?tss"
    by (simp add: registry_def registry_upto_def)
  have sz: "cm_table_size (cms ! n) = int (length (cm_table mix64 (cms ! n)))"
    by (rule cm_table_size_eq [OF ne])
  show ?thesis
    unfolding table_of_def GetTable_registry [OF n cm_table_nonempty [OF ne]]
      GetTableSize_registry [OF n] K sz
    using le d n by (simp del: of_nat_add add: of_nat_add [symmetric])
qed

lemma GetTableColor_registry:
  assumes n: "n < length cms" and j: "j < length (cm_table mix64 (cms ! n))"
  shows "GetTableColor (registry mix64 hash cms) (int n) (int j) =
           Some (cm_table mix64 (cms ! n) ! j)"
proof -
  let ?tss = "map (cm_table mix64) cms"
  let ?o = "sum_list (take n (map (\<lambda>c. length (cm_table mix64 c)) cms))"
  have nk: "n < length ?tss" using n by simp
  have jk: "j < length (?tss ! n)" using n j by simp
  have ml: "map length ?tss = map (\<lambda>c. length (cm_table mix64 c)) cms" by (simp add: comp_def)
  have le: "?o + length (?tss ! n) \<le> length (concat ?tss)"
    using segment_end_le [OF nk, unfolded ml] .
  have e: "concat ?tss ! (?o + j) = ?tss ! n ! j"
    using concat_nth_segment [OF nk jk, unfolded ml] .
  have o: "vget (TableOffsets (registry mix64 hash cms)) (int n) = Some (int ?o)"
    using n by (simp add: registry_def registry_upto_def vget_nat offsets_nth)
  have K: "Tables (registry mix64 hash cms) = concat ?tss"
    by (simp add: registry_def registry_upto_def)
  have "vget (concat ?tss) (int (?o + j)) = Some (concat ?tss ! (?o + j))"
    by (rule vget_nat) (use le jk in linarith)
  then show ?thesis
    unfolding GetTableColor_def o K using e n by simp
qed

lemma GetName_registry:
  assumes n: "n < length cms" and z: "NUL \<notin> set (cm_name (cms ! n))"
  shows "GetName (registry mix64 hash cms) (int n) = Some (Some (cm_name (cms ! n)))"
proof -
  let ?names = "map cm_name cms"
  have z': "NUL \<notin> set (?names ! n)" using n z by simp
  have nl: "n < length ?names" using n by simp
  have ml: "map (\<lambda>n. Suc (length n)) ?names = map (\<lambda>c. Suc (length (cm_name c))) cms"
    by (simp add: comp_def)
  have t: "text_at (text_of ?names)
      (int (sum_list (take n (map (\<lambda>c. Suc (length (cm_name c))) cms)))) = Some (?names ! n)"
    using text_at_text_of [OF nl z', unfolded ml] .
  have o: "vget (TextOffsets (registry mix64 hash cms)) (int n) =
      Some (int (sum_list (take n (map (\<lambda>c. Suc (length (cm_name c))) cms))))"
    using n by (simp add: registry_def registry_upto_def vget_nat offsets_nth)
  have T: "Text (registry mix64 hash cms) = text_of ?names"
    by (simp add: registry_def registry_upto_def)
  show ?thesis
    unfolding GetName_def o T using n t by simp
qed

lemma concat_update_segment:
  assumes n: "n < length xss" and j: "j < length (xss ! n)"
  shows "(concat xss)[sum_list (take n (map length xss)) + j := v] =
           concat (xss[n := (xss ! n)[j := v]])"
proof -
  let ?A = "concat (take n xss)"
  let ?B = "concat (drop (Suc n) xss)"
  have la: "length ?A = sum_list (take n (map length xss))"
    by (rule length_concat_take)
  have "(concat xss)[length ?A + j := v] = (?A @ xss ! n @ ?B)[length ?A + j := v]"
    by (subst concat_split [OF n]) simp
  also have "\<dots> = ?A @ (xss ! n)[j := v] @ ?B"
    using j by (simp add: list_update_append)
  also have "\<dots> = concat (take n xss @ (xss ! n)[j := v] # drop (Suc n) xss)"
    by simp
  also have "take n xss @ (xss ! n)[j := v] # drop (Suc n) xss = xss[n := (xss ! n)[j := v]]"
    using n by (simp add: upd_conv_take_nth_drop)
  finally show ?thesis by (simp add: la)
qed

text \<open>Every position of a concatenation lies in one of its blocks.\<close>

lemma concat_index_split:
  assumes "p < length (concat xss)"
  shows "\<exists>n j. n < length xss \<and> j < length (xss ! n) \<and>
           p = sum_list (take n (map length xss)) + j"
  using assms
proof (induction xss arbitrary: p)
  case Nil
  then show ?case by simp
next
  case (Cons xs xss)
  show ?case
  proof (cases "p < length xs")
    case True
    then have "0 < length (xs # xss) \<and> p < length ((xs # xss) ! 0) \<and>
        p = sum_list (take 0 (map length (xs # xss))) + p"
      by simp
    then show ?thesis by blast
  next
    case False
    with Cons.prems have "p - length xs < length (concat xss)" by simp
    from Cons.IH [OF this] obtain n j where
      nj: "n < length xss" "j < length (xss ! n)"
        "p - length xs = sum_list (take n (map length xss)) + j"
      by blast
    then have "Suc n < length (xs # xss) \<and> j < length ((xs # xss) ! Suc n) \<and>
        p = sum_list (take (Suc n) (map length (xs # xss))) + j"
      using False by simp
    then show ?thesis by blast
  qed
qed

lemma set_key_facts:
  assumes n: "n < length cms"
  shows "map cm_name (set_key cms n j v) = map cm_name cms"
    and "map cm_qual (set_key cms n j v) = map cm_qual cms"
    and "map (\<lambda>c. length (cm_keys c)) (set_key cms n j v) = map (\<lambda>c. length (cm_keys c)) cms"
    and "map (\<lambda>c. int (length (cm_keys c))) (set_key cms n j v) =
         map (\<lambda>c. int (length (cm_keys c))) cms"
    and "map (\<lambda>c. Suc (length (cm_name c))) (set_key cms n j v) =
         map (\<lambda>c. Suc (length (cm_name c))) cms"
    and "map cm_keys (set_key cms n j v) = (map cm_keys cms)[n := (cm_keys (cms ! n))[j := v]]"
    and "length (set_key cms n j v) = length cms"
  using n by (simp_all add: set_key_def map_update list_update_same_conv)

lemma set_key_table_lengths:
  assumes n: "n < length cms"
  shows "map cm_table_size (set_key cms n j v) = map cm_table_size cms"
    and "map (\<lambda>c. length (cm_table mix64 c)) (set_key cms n j v) =
         map (\<lambda>c. length (cm_table mix64 c)) cms"
  using n
  by (simp_all add: set_key_def map_update list_update_same_conv cm_table_size_def cm_table_def
      length_ramp)

lemma set_key_good:
  assumes "good hash cms" "n < length cms"
  shows "good hash (set_key cms n j v)"
proof -
  have "map (\<lambda>c. hash (cm_name c)) (set_key cms n j v) = map (\<lambda>c. hash (cm_name c)) cms"
    using assms(2) by (simp add: set_key_def map_update list_update_same_conv)
  moreover have "\<forall>c \<in> set (set_key cms n j v). NUL \<notin> set (cm_name c) \<and> cm_keys c \<noteq> []"
  proof
    fix c assume "c \<in> set (set_key cms n j v)"
    then have "c \<in> insert ((cms ! n)\<lparr>cm_keys := (cm_keys (cms ! n))[j := v]\<rparr>) (set cms)"
      unfolding set_key_def using set_update_subset_insert by fastforce
    moreover have "cms ! n \<in> set cms" using assms(2) by simp
    ultimately show "NUL \<notin> set (cm_name c) \<and> cm_keys c \<noteq> []"
      using assms(1) by (auto simp: good_def)
  qed
  ultimately show ?thesis
    using assms(1) by (simp add: good_def set_key_table_lengths(1) [OF assms(2)])
qed

text \<open>
  \<^verbatim>\<open>SetKeyColor\<close> writes position \<^verbatim>\<open>KeyOffsets[cmap] + idx\<close> of \<^verbatim>\<open>Keys\<close>. When
  that is key \<open>j\<close> of colormap \<open>n\<close>, the call returns the registry with that key
  replaced.
\<close>

lemma SetKeyColor_registry_at:
  assumes g: "good hash cms" and m: "m < length cms"
    and n: "n < length cms" and j: "j < length (cm_keys (cms ! n))"
    and p: "int (sum_list (take m (map (\<lambda>c. length (cm_keys c)) cms))) + idx =
            int (sum_list (take n (map (\<lambda>c. length (cm_keys c)) cms)) + j)"
  shows "SetKeyColor mix64 (registry mix64 hash cms) (int m) idx v =
           Some (registry mix64 hash (set_key cms n j v))"
proof -
  let ?d = "registry mix64 hash cms"
  let ?kss = "map cm_keys cms"
  let ?o = "sum_list (take n (map (\<lambda>c. length (cm_keys c)) cms))"
  let ?om = "sum_list (take m (map (\<lambda>c. length (cm_keys c)) cms))"
  have nk: "n < length ?kss" using n by simp
  have jk: "j < length (?kss ! n)" using n j by simp
  have ml: "map length ?kss = map (\<lambda>c. length (cm_keys c)) cms" by (simp add: comp_def)
  have le: "?o + length (?kss ! n) \<le> length (concat ?kss)"
    using segment_end_le [OF nk, unfolded ml] .
  have o: "vget (KeyOffsets ?d) (int m) = Some (int ?om)"
    using m by (simp add: registry_def registry_upto_def vget_nat offsets_nth)
  have K: "Keys ?d = concat ?kss"
    by (simp add: registry_def registry_upto_def)
  have u: "(concat ?kss)[?o + j := v] = concat (map cm_keys (set_key cms n j v))"
    using concat_update_segment [OF nk jk, unfolded ml] n
    by (simp add: set_key_facts(6) [OF n])
  have "vset (concat ?kss) (int (?o + j)) v = Some ((concat ?kss)[?o + j := v])"
    using le jk by (simp add: vset_def del: of_nat_add)
  then have vs: "vset (Keys ?d) (int ?om + idx) v = Some (concat (map cm_keys (set_key cms n j v)))"
    using u K p by simp
  have st: "(?d\<lparr>Keys := concat (map cm_keys (set_key cms n j v))\<rparr>)
        \<lparr>Tables := [], TableSizes := [], TableOffsets := []\<rparr> =
      registry_upto mix64 hash (set_key cms n j v) 0"
    by (simp add: registry_def registry_upto_def set_key_facts [OF n] offsets_def)
  have "RebuildTables mix64 (?d\<lparr>Keys := concat (map cm_keys (set_key cms n j v))\<rparr>) =
      Some (registry mix64 hash (set_key cms n j v))"
    by (rule RebuildTables_registry [OF set_key_good [OF g n] st])
  then show ?thesis
    unfolding SetKeyColor_def o using vs by simp
qed


lemma SetKeyColor_registry_Some:
  assumes g: "good hash cms"
    and s: "SetKeyColor mix64 (registry mix64 hash cms) cmap idx v = Some d'"
  shows "\<exists>n j. n < length cms \<and> j < length (cm_keys (cms ! n)) \<and>
           d' = registry mix64 hash (set_key cms n j v)"
proof -
  let ?d = "registry mix64 hash cms"
  let ?kss = "map cm_keys cms"
  have ml: "map length ?kss = map (\<lambda>c. length (cm_keys c)) cms" by (simp add: comp_def)
  have K: "Keys ?d = concat ?kss"
    by (simp add: registry_def registry_upto_def)
  from s obtain off where o: "vget (KeyOffsets ?d) cmap = Some off"
    by (auto simp: SetKeyColor_def split: bind_splits)
  then have c: "0 \<le> cmap" "nat cmap < length cms"
    by (auto simp: vget_def registry_def registry_upto_def split: if_splits)
  let ?m = "nat cmap"
  have "vget (offsets (map (\<lambda>c. length (cm_keys c)) cms)) (int ?m) =
      Some (offsets (map (\<lambda>c. length (cm_keys c)) cms) ! ?m)"
    by (rule vget_nat) (use c(2) in simp)
  moreover have "int ?m = cmap" using c(1) by simp
  ultimately have "vget (KeyOffsets ?d) cmap =
      Some (int (sum_list (take ?m (map (\<lambda>c. length (cm_keys c)) cms))))"
    using c(2) by (simp add: registry_def registry_upto_def offsets_nth)
  with o have off: "off = int (sum_list (take ?m (map (\<lambda>c. length (cm_keys c)) cms)))"
    by simp
  from s o obtain ks where "vset (Keys ?d) (off + idx) v = Some ks"
    by (auto simp: SetKeyColor_def split: bind_splits)
  then have r: "0 \<le> off + idx" "nat (off + idx) < length (concat ?kss)"
    unfolding K by (auto simp: vset_def split: if_splits)
  from concat_index_split [OF r(2)] obtain n j where
    nj: "n < length ?kss" "j < length (?kss ! n)"
      "nat (off + idx) = sum_list (take n (map length ?kss)) + j"
    by blast
  have n: "n < length cms" using nj(1) by simp
  have j: "j < length (cm_keys (cms ! n))" using nj(2) n by simp
  have "off + idx = int (sum_list (take n (map (\<lambda>c. length (cm_keys c)) cms)) + j)"
    using nj(3) r(1) unfolding ml by linarith
  then have p: "int (sum_list (take ?m (map (\<lambda>c. length (cm_keys c)) cms))) + idx =
      int (sum_list (take n (map (\<lambda>c. length (cm_keys c)) cms)) + j)"
    unfolding off .
  from SetKeyColor_registry_at [OF g c(2) n j p, of mix64 v] s c(1)
  have "d' = registry mix64 hash (set_key cms n j v)" by simp
  with n j show ?thesis by blast
qed


text \<open>Every state the interface produces is the layout of a good list.\<close>

lemma reachable_registry:
  assumes "reachable mix64 hash d"
  shows "\<exists>cms. good hash cms \<and> d = registry mix64 hash cms"
  using assms
proof (induction rule: reachable.induct)
  case ctor
  have "good hash []" by (simp add: good_def INT_MAX_def)
  then show ?case using registry_empty [of mix64 hash] by metis
next
  case (append d name keys count qual idx d')
  then obtain cms where g: "good hash cms" and d: "d = registry mix64 hash cms"
    by blast
  show ?case
  proof (cases "GetIndex hash d name = - 1")
    case True
    let ?c = "\<lparr>cm_name = c_str name, cm_keys = take (nat count) keys, cm_qual = qual\<rparr>"
    from append.hyps(2) have c: "0 < count \<and> count \<le> int (length keys) \<and>
        sum_list (map cm_table_size cms) + cm_table_size ?c \<le> INT_MAX"
      unfolding d Append_registry [OF g True [unfolded d]] by (simp split: if_splits)
    with append.hyps(2) have "d' = registry mix64 hash (cms @ [?c])"
      unfolding d Append_registry [OF g True [unfolded d]] by simp
    moreover have "good hash (cms @ [?c])"
      using Append_registry_good [OF g True [unfolded d]] c by blast
    ultimately show ?thesis by blast
  next
    case False
    from Append_registry_dup [OF False [unfolded d]] append.hyps(2)
    have "d' = d" unfolding d by simp
    with g d show ?thesis by blast
  qed
next
  case (set_key_color d cmap idx v d')
  then obtain cms where g: "good hash cms" and d: "d = registry mix64 hash cms"
    by blast
  from SetKeyColor_registry_Some [OF g set_key_color.hyps(2) [unfolded d]] obtain n j where
    "n < length cms" "d' = registry mix64 hash (set_key cms n j v)"
    by blast
  with set_key_good [OF g] show ?case by blast
next
  case (rebuild d d')
  then obtain cms where g: "good hash cms" and d: "d = registry mix64 hash cms"
    by blast
  from RebuildTables_registry [OF g registry_strip] rebuild.hyps(2)
  have "d' = d" unfolding d by simp
  with g d show ?case by blast
qed

lemma reachable_Count:
  assumes "reachable mix64 hash d"
  shows "0 \<le> Count d"
  using reachable_registry [OF assms] by auto





text \<open>
  Beyond that bound nothing is appended. On a fresh registry, 8421506 keys ask for
  \<open>255 * 8421505 + 1 = 2147483776\<close> table entries, which is no \<^verbatim>\<open>int\<close>: the
  computation of \<^verbatim>\<open>max_size\<close> overflows.
\<close>

lemma Append_continuous_overflow:
  "length huge_keys = 8421506 \<and>
   c_int (255 * (int (length huge_keys) - 1) + 1) = None \<and>
   Append False length_hash ImPlot3DColormapData_ctor ''huge'' huge_keys 8421506 False = None"
proof -
  have l: "length huge_keys = 8421506"
    by (simp only: huge_keys_def length_replicate)
  have g: "good length_hash []" by (simp add: good_def INT_MAX_def)
  have u: "GetIndex length_hash (registry False length_hash []) ''huge'' = - 1"
    by (simp add: registry_empty GetIndex_def ImPlot3DColormapData_ctor_def)
  have "Append False length_hash (registry False length_hash []) ''huge'' huge_keys 8421506 False =
      None"
    unfolding Append_registry [OF g u]
    by (simp add: l cm_table_size_def INT_MAX_def)
  moreover have "c_int (255 * (int (length huge_keys) - 1) + 1) = None"
    by (simp add: l c_int_def INT_MAX_def)
  ultimately show ?thesis using l by (simp add: registry_empty)
qed



lemma AppendTable_frame:
  assumes "AppendTable mix64 d cmap = Some d'"
  shows "Text d' = Text d \<and> TextOffsets d' = TextOffsets d \<and> Map d' = Map d \<and>
         Count d' = Count d"
  using assms by (auto simp: AppendTable_def Let_def split: bind_splits if_splits)

lemma push_back_SomeD: "push_back xs x = Some ys \<Longrightarrow> ys = xs @ [x]"
  by (simp add: push_back_def split: if_splits)

lemma c_int_SomeD: "c_int x = Some y \<Longrightarrow> y = x"
  by (simp add: c_int_def split: if_splits)

lemma Append_frame:
  assumes "Append mix64 hash d name keys count qual = Some (idx, d')"
    and "GetIndex hash d name = - 1"
  shows "idx = Count d \<and> Count d' = Count d + 1 \<and>
         Text d' = ImGuiTextBuffer_append (Text d) (c_str name @ [NUL]) \<and>
         TextOffsets d' = TextOffsets d @ [ImGuiTextBuffer_size (Text d)] \<and>
         Map d' = (Map d)(hash (c_str name) \<mapsto> Count d)"
  using assms
  by (auto simp: Append_def Let_def split: bind_splits
      dest!: AppendTable_frame push_back_SomeD c_int_SomeD)

lemma GetName_cong:
  assumes "Count d = Count e" "TextOffsets d = TextOffsets e" "Text d = Text e"
  shows "GetName d i = GetName e i"
  using assms by (simp add: GetName_def)

text \<open>
  Claim C10. Whenever \<^verbatim>\<open>Append\<close> succeeds on a registry the interface can
  produce and returns an index \<open>idx \<ge> 0\<close>, then in the new state
  \<^verbatim>\<open>GetIndex(name)\<close> is \<open>idx\<close> and \<^verbatim>\<open>GetName(idx)\<close> points at a C string equal
  to the one at \<open>name\<close>. Any key array, count and flag.
\<close>

theorem Append_name_round_trip:
  assumes r: "reachable mix64 hash d"
    and a: "Append mix64 hash d name keys count qual = Some (idx, d')"
    and i: "0 \<le> idx"
  shows "GetIndex hash d' name = idx \<and> GetName d' idx = Some (Some (c_str name))"
proof -
  have u: "GetIndex hash d name = - 1"
  proof (rule ccontr)
    assume "GetIndex hash d name \<noteq> - 1"
    with a have "idx = - 1" by (simp add: Append_def)
    with i show False by simp
  qed
  from Append_frame [OF a u] have
    f: "idx = Count d" "Count d' = Count d + 1"
       "Text d' = ImGuiTextBuffer_append (Text d) (c_str name @ [NUL])"
       "TextOffsets d' = TextOffsets d @ [ImGuiTextBuffer_size (Text d)]"
       "Map d' = (Map d)(hash (c_str name) \<mapsto> Count d)"
    by simp_all
  have gi: "GetIndex hash d' name = idx"
    using f(1,5) by (simp add: GetIndex_def)
  from reachable_registry [OF r] obtain cms where
    g: "good hash cms" and d: "d = registry mix64 hash cms"
    by blast
  let ?c = "\<lparr>cm_name = c_str name, cm_keys = [], cm_qual = True\<rparr>"
  let ?e = "registry mix64 hash (cms @ [?c])"
  have "GetName d' idx = GetName ?e idx"
  proof (rule GetName_cong)
    show "Count d' = Count ?e" using f(2) d by simp
    show "TextOffsets d' = TextOffsets ?e"
      using f(4) unfolding d
      by (simp add: registry_def registry_upto_def offsets_snoc text_of_size comp_def)
    show "Text d' = Text ?e"
      using f(3) unfolding d
      by (simp add: registry_def registry_upto_def text_of_append)
  qed
  also have "\<dots> = Some (Some (cm_name ((cms @ [?c]) ! length cms)))"
    using GetName_registry [of "length cms" "cms @ [?c]" mix64 hash] f(1) d
    by (simp add: c_str_NUL_free)
  finally have "GetName d' idx = Some (Some (c_str name))" by simp
  with gi show ?thesis by simp
qed

lemmas eval_colormap =
  Append_def AppendTable_def RebuildTables_def SetKeyColor_def GetIndex_def GetKeyCount_def
  IsQual_def GetName_def GetKeys_def GetTable_def GetTableSize_def GetTableColor_def
  GetKeyColor_def keys_of_def table_of_def text_at_def
  ImPlot3DColormapData_ctor_def push_loop.simps rebuild_loop.simps vget_def vset_def vptr_def
  push_back_def c_int_def INT_MAX_def INT_MIN_def Let_def
  c_str_def NUL_def ImGuiTextBuffer_size_def ImGuiTextBuffer_append_def length_hash_def

theorem Append_name_round_trip_witness:
  "reachable False (\<lambda>s. word_of_nat (length s)) ImPlot3DColormapData_ctor \<and>
   Append False (\<lambda>s. word_of_nat (length s)) ImPlot3DColormapData_ctor ''A'' [1, 2] 2 True =
     Some (0, \<lparr>Keys = [1, 2], KeyCounts = [2], KeyOffsets = [0], Tables = [1, 2],
               TableSizes = [2], TableOffsets = [0], Text = [CHR ''A'', NUL, NUL],
               TextOffsets = [0], Quals = [True], Map = [1 \<mapsto> 0], Count = 1\<rparr>) \<and>
   GetIndex (\<lambda>s. word_of_nat (length s))
     \<lparr>Keys = [1, 2], KeyCounts = [2], KeyOffsets = [0], Tables = [1, 2],
      TableSizes = [2], TableOffsets = [0], Text = [CHR ''A'', NUL, NUL],
      TextOffsets = [0], Quals = [True], Map = [1 \<mapsto> 0], Count = 1\<rparr> ''A'' = 0 \<and>
   GetName
     \<lparr>Keys = [1, 2], KeyCounts = [2], KeyOffsets = [0], Tables = [1, 2],
      TableSizes = [2], TableOffsets = [0], Text = [CHR ''A'', NUL, NUL],
      TextOffsets = [0], Quals = [True], Map = [1 \<mapsto> 0], Count = 1\<rparr> 0 = Some (Some ''A'')"
proof -
  have r: "reachable False (\<lambda>s. word_of_nat (length s)) ImPlot3DColormapData_ctor"
    by (rule reachable.ctor)
  have a: "Append False (\<lambda>s. word_of_nat (length s)) ImPlot3DColormapData_ctor ''A'' [1, 2] 2 True =
     Some (0, \<lparr>Keys = [1, 2], KeyCounts = [2], KeyOffsets = [0], Tables = [1, 2],
               TableSizes = [2], TableOffsets = [0], Text = [CHR ''A'', NUL, NUL],
               TextOffsets = [0], Quals = [True], Map = [1 \<mapsto> 0], Count = 1\<rparr>)"
    by (simp add: eval_colormap)
  have c: "c_str ''A'' = ''A''" by (simp add: c_str_def NUL_def)
  from Append_name_round_trip [OF r a] c r a show ?thesis by simp
qed

text \<open>
  Claim C4. In a registry the interface can produce, let \<open>name\<close> be the name of
  a registered colormap: \<^verbatim>\<open>GetName(i)\<close> is that string for some index
  \<open>0 \<le> i < Count\<close>. Then \<^verbatim>\<open>Append(name, ...)\<close>, with any keys, count and flag,
  returns \<open>-1\<close> and the state it leaves is the state it found: every field is
  unchanged.
\<close>

theorem Append_duplicate_name:
  assumes r: "reachable mix64 hash d"
    and i: "0 \<le> i" "i < Count d"
    and n: "GetName d i = Some (Some (c_str name))"
  shows "Append mix64 hash d name keys count qual = Some (- 1, d)"
proof -
  from reachable_registry [OF r] obtain cms where
    g: "good hash cms" and d: "d = registry mix64 hash cms"
    by blast
  have l: "nat i < length cms" using i d by simp
  then have "cms ! nat i \<in> set cms" by simp
  with g have z: "NUL \<notin> set (cm_name (cms ! nat i))" by (auto simp: good_def)
  from GetName_registry [OF l z, of mix64 hash] n i(1)
  have nm: "cm_name (cms ! nat i) = c_str name"
    unfolding d by simp
  have "distinct (map hash (map cm_name cms))"
    using g by (simp add: good_def comp_def)
  from name_map_nth [OF this, of "nat i"] l nm i(1)
  have "name_map hash (map cm_name cms) (hash (c_str name)) = Some i"
    by simp
  then have "GetIndex hash (registry mix64 hash cms) name = i"
    by (simp add: GetIndex_registry)
  with i(1) have "GetIndex hash (registry mix64 hash cms) name \<noteq> - 1" by simp
  from Append_registry_dup [OF this] show ?thesis unfolding d .
qed

lemma Append_A:
  "Append False length_hash ImPlot3DColormapData_ctor ''A'' [1, 2] 2 True = Some (0, registry_A)"
  by (simp add: eval_colormap registry_A_def)


lemma reachable_A: "reachable False length_hash registry_A"
  using reachable.append [OF reachable.ctor Append_A] .


theorem Append_duplicate_name_witness:
  "reachable False length_hash registry_A \<and>
   (0 :: int) \<le> 0 \<and> 0 < Count registry_A \<and>
   GetName registry_A 0 = Some (Some (c_str ''A'')) \<and>
   Append False length_hash registry_A ''A'' [6, 7, 8] 3 False = Some (- 1, registry_A)"
proof -
  have i: "(0 :: int) \<le> 0" "0 < Count registry_A"
    by (simp_all add: registry_A_def)
  have n: "GetName registry_A 0 = Some (Some (c_str ''A''))"
    by (simp add: eval_colormap registry_A_def)
  from Append_duplicate_name [OF reachable_A i n] reachable_A i n show ?thesis
    by simp
qed






section \<open>Axis fit\<close>

lemma seed_degenerate: "\<not> non_degenerate \<lparr>Min_r = PosInf, Max_r = NegInf\<rparr>"
  by (simp add: non_degenerate_def)

text \<open>
  Claim C7. \<^verbatim>\<open>ApplyFit\<close> replaces the range of the axis with the accumulator
  exactly when the accumulator is non-degenerate, and leaves it as it was otherwise. In
  both cases the accumulator is the seed \<open>[+\<infinity>, -\<infinity>]\<close> afterwards and no other
  field changes. The seed is degenerate, so a second \<^verbatim>\<open>ApplyFit\<close> with no
  \<^verbatim>\<open>ExtendFit\<close> in between keeps the range, and so does \<^verbatim>\<open>ApplyFit\<close> on a
  freshly constructed axis.
\<close>

theorem ApplyFit_range:
  "(non_degenerate (FitExtents a) \<longrightarrow> Range_a (ApplyFit a) = FitExtents a) \<and>
   (\<not> non_degenerate (FitExtents a) \<longrightarrow> Range_a (ApplyFit a) = Range_a a) \<and>
   FitExtents (ApplyFit a) = \<lparr>Min_r = PosInf, Max_r = NegInf\<rparr> \<and>
   ApplyFit a = a\<lparr>Range_a := Range_a (ApplyFit a), FitExtents := \<lparr>Min_r = PosInf, Max_r = NegInf\<rparr>\<rparr> \<and>
   Range_a (ApplyFit (ApplyFit a)) = Range_a (ApplyFit a) \<and>
   Range_a (ApplyFit ImPlot3DAxis_ctor) = Range_a ImPlot3DAxis_ctor"
  by (simp add: ApplyFit_def Let_def seed_degenerate ImPlot3DAxis_ctor_def)

theorem ApplyFit_range_witness:
  "non_degenerate (FitExtents (ExtendFit (ExtendFit ImPlot3DAxis_ctor (Finite 3)) (Finite (- 2)))) \<and>
   Range_a (ApplyFit (ExtendFit (ExtendFit ImPlot3DAxis_ctor (Finite 3)) (Finite (- 2)))) =
     \<lparr>Min_r = Finite (- 2), Max_r = Finite 3\<rparr> \<and>
   \<not> non_degenerate (FitExtents ImPlot3DAxis_ctor) \<and>
   Range_a (ApplyFit ImPlot3DAxis_ctor) = \<lparr>Min_r = Finite 0, Max_r = Finite 1\<rparr> \<and>
   Range_a (ApplyFit (ApplyFit (ExtendFit (ExtendFit ImPlot3DAxis_ctor (Finite 3)) (Finite (- 2))))) =
     \<lparr>Min_r = Finite (- 2), Max_r = Finite 3\<rparr>"
proof -
  let ?a = "ExtendFit (ExtendFit ImPlot3DAxis_ctor (Finite 3)) (Finite (- 2))"
  have e: "FitExtents ?a = \<lparr>Min_r = Finite (- 2), Max_r = Finite 3\<rparr>"
    by (simp add: ExtendFit_def ImPlot3DAxis_ctor_def)
  have n: "non_degenerate (FitExtents ?a)"
    by (simp add: e non_degenerate_def)
  have m: "\<not> non_degenerate (FitExtents ImPlot3DAxis_ctor)"
    by (simp add: ImPlot3DAxis_ctor_def non_degenerate_def)
  have c: "Range_a ImPlot3DAxis_ctor = \<lparr>Min_r = Finite 0, Max_r = Finite 1\<rparr>"
    by (simp add: ImPlot3DAxis_ctor_def)
  from ApplyFit_range [of ?a] ApplyFit_range [of ImPlot3DAxis_ctor] n m e c
  show ?thesis by simp
qed

section \<open>Rounding to single precision\<close>

lemma rne_bounds: "\<lfloor>q\<rfloor> \<le> rne q \<and> rne q \<le> \<lfloor>q\<rfloor> + 1"
  by (simp add: rne_def Let_def)

lemma rne_of_int [simp]: "rne (of_int n) = n"
  by (simp add: rne_def Let_def)

lemma rne_mono:
  assumes "q \<le> q'"
  shows "rne q \<le> rne q'"
proof (cases "\<lfloor>q\<rfloor> = \<lfloor>q'\<rfloor>")
  case True
  then have "q - of_int \<lfloor>q\<rfloor> \<le> q' - of_int \<lfloor>q'\<rfloor>"
    using assms by simp
  with True show ?thesis
    by (auto simp: rne_def Let_def)
next
  case False
  with assms have "\<lfloor>q\<rfloor> < \<lfloor>q'\<rfloor>"
    using floor_mono [OF assms] by linarith
  then have "rne q \<le> \<lfloor>q'\<rfloor>"
    using rne_bounds [of q] by linarith
  then show ?thesis
    using rne_bounds [of q'] by linarith
qed

lemma fexp_from_range: "e \<le> fexp_from n e x \<and> fexp_from n e x \<le> e + int n"
  by (induction n e x rule: fexp_from.induct) auto

lemma fexp_from_upper:
  "fexp_from n e x < e + int n \<Longrightarrow> \<bar>x\<bar> < 2 powi (fexp_from n e x + 24)"
  by (induction n e x rule: fexp_from.induct) (auto split: if_splits)

lemma fexp_from_lower:
  "e < fexp_from n e x \<Longrightarrow> 2 powi (fexp_from n e x + 23) \<le> \<bar>x\<bar>"
proof (induction n e x rule: fexp_from.induct)
  case (1 e x)
  then show ?case by simp
next
  case (2 n e x)
  show ?case
  proof (cases "\<bar>x\<bar> < 2 powi (e + 24)")
    case True
    with "2.prems" show ?thesis by simp
  next
    case False
    show ?thesis
    proof (cases "e + 1 < fexp_from n (e + 1) x")
      case True
      with "2.IH" [OF False] False show ?thesis by simp
    next
      case f: False
      with fexp_from_range [of "e + 1" n x] have "fexp_from n (e + 1) x = e + 1" by simp
      with False show ?thesis by (simp add: add.commute)
    qed
  qed
qed

lemma fexp_range: "- 149 \<le> fexp x \<and> fexp x \<le> 105"
  using fexp_from_range [of "- 149" 254 x] by (simp add: fexp_def)

lemma fexp_upper: "fexp x < 105 \<Longrightarrow> \<bar>x\<bar> < 2 powi (fexp x + 24)"
  using fexp_from_upper [of 254 "- 149" x] by (simp add: fexp_def)

lemma fexp_lower: "- 149 < fexp x \<Longrightarrow> 2 powi (fexp x + 23) \<le> \<bar>x\<bar>"
  using fexp_from_lower [of "- 149" 254 x] by (simp add: fexp_def)

lemma two_powi_mono: "m \<le> n \<Longrightarrow> (2 :: rat) powi m \<le> 2 powi n"
  by (rule power_int_increasing) simp_all

lemma two_powi_pos [simp]: "0 < (2 :: rat) powi n"
  by (rule zero_less_power_int) simp

lemma fexp_le:
  assumes "- 149 \<le> e" "\<bar>x\<bar> < 2 powi (e + 24)"
  shows "fexp x \<le> e"
proof (rule ccontr)
  assume "\<not> fexp x \<le> e"
  then have l: "e < fexp x" by simp
  with assms(1) have "2 powi (fexp x + 23) \<le> \<bar>x\<bar>"
    by (intro fexp_lower) simp
  moreover have "(2 :: rat) powi (e + 24) \<le> 2 powi (fexp x + 23)"
    by (rule two_powi_mono) (use l in simp)
  ultimately show False using assms(2) by simp
qed

lemma fexp_ge:
  assumes "2 powi (e + 23) \<le> \<bar>x\<bar>" "e \<le> 105"
  shows "e \<le> fexp x"
proof (rule ccontr)
  assume "\<not> e \<le> fexp x"
  then have l: "fexp x < e" by simp
  with assms(2) have "\<bar>x\<bar> < 2 powi (fexp x + 24)"
    by (intro fexp_upper) simp
  moreover have "(2 :: rat) powi (fexp x + 24) \<le> 2 powi (e + 23)"
    by (rule two_powi_mono) (use l in simp)
  ultimately show False using assms(1) by simp
qed

lemma fexp_eqI:
  assumes "- 149 < e" "e \<le> 105" "2 powi (e + 23) \<le> \<bar>x\<bar>" "\<bar>x\<bar> < 2 powi (e + 24)"
  shows "fexp x = e"
  using fexp_le [of e x] fexp_ge [of e x] assms by simp

lemma fexp_mono:
  assumes "\<bar>x\<bar> \<le> \<bar>y\<bar>"
  shows "fexp x \<le> fexp y"
proof (cases "fexp y < 105")
  case True
  from fexp_upper [OF True] assms have "\<bar>x\<bar> < 2 powi (fexp y + 24)" by simp
  with fexp_range [of y] show ?thesis by (intro fexp_le) simp_all
next
  case False
  with fexp_range [of x] fexp_range [of y] show ?thesis by simp
qed

lemma round32_exact:
  assumes k: "- 149 \<le> k" and m: "\<bar>m\<bar> < 2 ^ 24"
  shows "round32 (of_int m * 2 powi k) = of_int m * 2 powi k"
proof -
  let ?x = "of_int m * 2 powi k :: rat"
  have "\<bar>?x\<bar> = of_int \<bar>m\<bar> * 2 powi k"
    by (simp add: abs_mult)
  also have "\<dots> < 2 ^ 24 * 2 powi k"
  proof (rule mult_strict_right_mono)
    have "(of_int \<bar>m\<bar> :: rat) < of_int (2 ^ 24)"
      using m by (simp only: of_int_less_iff)
    then show "(of_int \<bar>m\<bar> :: rat) < 2 ^ 24" by simp
  qed simp
  also have "\<dots> = 2 powi (k + 24)"
    by (simp add: power_int_add)
  finally have "fexp ?x \<le> k"
    using k by (intro fexp_le)
  define e where "e = fexp ?x"
  have "e \<le> k" using \<open>fexp ?x \<le> k\<close> by (simp add: e_def)
  then obtain j where j: "k = e + int j"
    using nonneg_int_cases [of "k - e"] by (metis add_diff_cancel_left' diff_ge_0_iff_ge add.commute diff_add_cancel)
  have p: "(2 :: rat) powi k = 2 powi e * 2 ^ j"
    unfolding j by (simp add: power_int_add)
  have "of_int m * (2 powi e * 2 ^ j) / 2 powi e = (of_int (m * 2 ^ j) :: rat)"
    by simp
  then have "rne (of_int m * (2 powi e * 2 ^ j) / 2 powi e) = m * 2 ^ j"
    by (simp only: rne_of_int)
  then have "of_int (rne (of_int m * 2 powi k / 2 powi e)) * 2 powi e =
      (of_int (m * 2 ^ j) :: rat) * 2 powi e"
    unfolding p by simp
  also have "\<dots> = of_int m * (2 powi e * 2 ^ j)"
    by simp
  also have "\<dots> = of_int m * 2 powi k"
    unfolding p ..
  finally show ?thesis
    unfolding round32_def e_def .
qed

lemma round32_of_int:
  assumes "\<bar>n\<bar> < 2 ^ 24"
  shows "round32 (of_int n) = of_int n"
  using round32_exact [of 0 n] assms by simp

lemma round32_half_int:
  assumes "0 \<le> n" "n < 2 ^ 23"
  shows "round32 (of_int n + 1 / 2) = of_int n + 1 / 2"
proof -
  have "\<bar>2 * n + 1\<bar> < 2 ^ 24" using assms by simp
  from round32_exact [of "- 1" "2 * n + 1", OF _ this]
  show ?thesis by (simp add: field_simps)
qed

lemma round32_upper:
  assumes "fexp x < 105"
  shows "round32 x \<le> 2 powi (fexp x + 24)"
proof -
  have "x \<le> \<bar>x\<bar>" by simp
  also have "\<bar>x\<bar> < 2 powi (fexp x + 24)" by (rule fexp_upper [OF assms])
  finally have "x / 2 powi fexp x \<le> 2 powi (fexp x + 24) / 2 powi fexp x"
    by (simp add: divide_right_mono)
  also have "\<dots> = of_int (2 ^ 24)"
    by (simp add: power_int_add)
  finally have "rne (x / 2 powi fexp x) \<le> rne (of_int (2 ^ 24))"
    by (rule rne_mono)
  then have "rne (x / 2 powi fexp x) \<le> 2 ^ 24"
    by (simp only: rne_of_int)
  then have "(of_int (rne (x / 2 powi fexp x)) :: rat) \<le> of_int (2 ^ 24)"
    by (simp only: of_int_le_iff)
  then have "round32 x \<le> of_int (2 ^ 24) * 2 powi fexp x"
    unfolding round32_def by (rule mult_right_mono) simp
  also have "\<dots> = 2 powi (fexp x + 24)"
    by (simp add: power_int_add)
  finally show ?thesis .
qed

lemma round32_lower:
  assumes "- 149 < fexp x" "0 \<le> x"
  shows "2 powi (fexp x + 23) \<le> round32 x"
proof -
  have "2 powi (fexp x + 23) \<le> \<bar>x\<bar>" by (rule fexp_lower [OF assms(1)])
  then have "2 powi (fexp x + 23) \<le> x" using assms(2) by simp
  then have "2 powi (fexp x + 23) / 2 powi fexp x \<le> x / 2 powi fexp x"
    by (simp add: divide_right_mono)
  moreover have "2 powi (fexp x + 23) / 2 powi fexp x = (of_int (2 ^ 23) :: rat)"
    by (simp add: power_int_add)
  ultimately have "rne (of_int (2 ^ 23)) \<le> rne (x / 2 powi fexp x)"
    by (intro rne_mono) simp
  then have "2 ^ 23 \<le> rne (x / 2 powi fexp x)"
    by (simp only: rne_of_int)
  then have "(of_int (2 ^ 23) :: rat) \<le> of_int (rne (x / 2 powi fexp x))"
    by (simp only: of_int_le_iff)
  then have "of_int (2 ^ 23) * 2 powi fexp x \<le> round32 x"
    unfolding round32_def by (rule mult_right_mono) simp
  moreover have "of_int (2 ^ 23) * 2 powi fexp x = (2 :: rat) powi (fexp x + 23)"
    by (simp add: power_int_add)
  ultimately show ?thesis by simp
qed

lemma round32_mono:
  assumes "0 \<le> x" "x \<le> y"
  shows "round32 x \<le> round32 y"
proof -
  have a: "\<bar>x\<bar> \<le> \<bar>y\<bar>" using assms by simp
  show ?thesis
  proof (cases "fexp x = fexp y")
    case True
    have "x / 2 powi fexp y \<le> y / 2 powi fexp y"
      using assms(2) by (simp add: divide_right_mono)
    then have "rne (x / 2 powi fexp y) \<le> rne (y / 2 powi fexp y)"
      by (rule rne_mono)
    then have "(of_int (rne (x / 2 powi fexp y)) :: rat) \<le> of_int (rne (y / 2 powi fexp y))"
      by (simp only: of_int_le_iff)
    then show ?thesis
      unfolding round32_def True by (rule mult_right_mono) simp
  next
    case False
    with fexp_mono [OF a] have l: "fexp x < fexp y" by simp
    have "fexp x < 105" using l fexp_range [of y] by simp
    then have "round32 x \<le> 2 powi (fexp x + 24)" by (rule round32_upper)
    also have "\<dots> \<le> 2 powi (fexp y + 23)"
      by (rule two_powi_mono) (use l in simp)
    also have "\<dots> \<le> round32 y"
    proof (rule round32_lower)
      show "- 149 < fexp y" using l fexp_range [of x] by simp
      show "0 \<le> y" using assms by simp
    qed
    finally show ?thesis .
  qed
qed

lemma round32_zero [simp]: "round32 0 = 0"
  by (simp add: round32_def rne_def)

section \<open>The index of LerpTable\<close>

lemma round32_nonneg: "0 \<le> x \<Longrightarrow> 0 \<le> round32 x"
  using round32_mono [of 0 x] by simp

lemma to_f32_Finite:
  assumes "0 \<le> x" "x \<le> of_int n" "\<bar>n\<bar> < 2 ^ 24"
  shows "to_f32 x = Finite (round32 x) \<and> 0 \<le> round32 x \<and> round32 x \<le> of_int n"
proof -
  have u: "round32 x \<le> of_int n"
    using round32_mono [OF assms(1,2)] round32_of_int [OF assms(3)] by simp
  have l: "0 \<le> round32 x" by (rule round32_nonneg [OF assms(1)])
  have "(of_int n :: rat) < of_int (2 ^ 24)"
    using assms(3) by (simp only: of_int_less_iff)
  also have "(of_int (2 ^ 24) :: rat) \<le> 2 powi 128" by simp
  finally have "\<bar>round32 x\<bar> < 2 powi 128" using u l by simp
  then show ?thesis using u l by (simp add: to_f32_def)
qed

lemma f32_of_int_exact: "\<bar>n\<bar> < 2 ^ 24 \<Longrightarrow> f32_of_int n = Finite (of_int n)"
proof -
  assume a: "\<bar>n\<bar> < 2 ^ 24"
  have "(of_int \<bar>n\<bar> :: rat) < of_int (2 ^ 24)"
    using a by (simp only: of_int_less_iff)
  also have "(of_int (2 ^ 24) :: rat) \<le> 2 powi 128" by simp
  finally have "\<bar>of_int n :: rat\<bar> < 2 powi 128" by simp
  then show ?thesis
    by (simp add: f32_of_int_def to_f32_def round32_of_int [OF a])
qed

lemma ImClamp_range: "0 \<le> mx \<Longrightarrow> 0 \<le> ImClamp v 0 mx \<and> ImClamp v 0 mx \<le> mx"
  by (simp add: ImClamp_def)

lemma f32_to_int_nonneg:
  assumes "0 \<le> x" "x \<le> of_int n" "n < 2 ^ 31"
  shows "f32_to_int (Finite x) = Some \<lfloor>x\<rfloor> \<and> 0 \<le> \<lfloor>x\<rfloor> \<and> \<lfloor>x\<rfloor> \<le> n"
proof -
  have "\<lfloor>x\<rfloor> \<le> n" using assms(2) by (simp add: floor_le_iff)
  moreover have "0 \<le> \<lfloor>x\<rfloor>" using assms(1) by simp
  moreover have "(of_int n :: rat) < of_int (2 ^ 31)"
    using assms(3) by (simp only: of_int_less_iff)
  then have "x < 2 ^ 31" using assms(2) by simp
  ultimately show ?thesis using assms(1,3) by (simp add: Let_def)
qed

declare f32_to_int.simps(1) [simp del]

lemma product_bounds:
  fixes r :: rat
  assumes "0 \<le> n" "0 \<le> r" "r \<le> 1"
  shows "0 \<le> of_int n * r \<and> of_int n * r \<le> of_int n"
proof -
  have "of_int n * r \<le> of_int n * 1"
    by (rule mult_left_mono) (use assms in simp_all)
  then show ?thesis using assms by simp
qed

lemma LerpTable_idx_qual:
  assumes s: "1 \<le> s" "s < 2 ^ 24" and r: "0 \<le> r" "r \<le> 1"
  shows "LerpTable_idx True s (Finite r) = Some (ImClamp \<lfloor>round32 (of_int s * r)\<rfloor> 0 (s - 1))"
proof -
  have a: "\<bar>s\<bar> < 2 ^ 24" using s by simp
  have b: "0 \<le> of_int s * r \<and> of_int s * r \<le> of_int s"
    by (rule product_bounds) (use s r in simp_all)
  from to_f32_Finite [OF _ _ a, of "of_int s * r"] b have
    m: "to_f32 (of_int s * r) = Finite (round32 (of_int s * r))" and
    p: "0 \<le> round32 (of_int s * r)" "round32 (of_int s * r) \<le> of_int s"
    by simp_all
  have "s < 2 ^ 31" using s(2) by simp
  from f32_to_int_nonneg [OF p this]
  have "f32_to_int (Finite (round32 (of_int s * r))) = Some \<lfloor>round32 (of_int s * r)\<rfloor>"
    by simp
  then show ?thesis
    by (simp add: LerpTable_idx_def f32_of_int_exact [OF a] m)
qed

lemma half_exact: "round32 (1 / 2) = 1 / 2"
  using round32_exact [of "- 1" 1] by simp

lemma LerpTable_idx_cont:
  assumes s: "1 \<le> s" "s \<le> 2 ^ 23" and r: "0 \<le> r" "r \<le> 1"
  shows "LerpTable_idx False s (Finite r) =
           Some \<lfloor>round32 (round32 (of_int (s - 1) * r) + 1 / 2)\<rfloor> \<and>
         0 \<le> round32 (of_int (s - 1) * r) \<and>
         round32 (of_int (s - 1) * r) \<le> of_int (s - 1) \<and>
         1 / 2 \<le> round32 (round32 (of_int (s - 1) * r) + 1 / 2) \<and>
         round32 (round32 (of_int (s - 1) * r) + 1 / 2) \<le> of_int (s - 1) + 1 / 2"
proof -
  let ?p = "round32 (of_int (s - 1) * r)"
  let ?q = "round32 (?p + 1 / 2)"
  have a: "\<bar>s - 1\<bar> < 2 ^ 24" using s by simp
  have b: "0 \<le> of_int (s - 1) * r \<and> of_int (s - 1) * r \<le> of_int (s - 1)"
    by (rule product_bounds) (use s r in simp_all)
  from to_f32_Finite [OF _ _ a, of "of_int (s - 1) * r"] b have
    m: "to_f32 (of_int (s - 1) * r) = Finite ?p" and
    p: "0 \<le> ?p" "?p \<le> of_int (s - 1)"
    by simp_all
  have h: "round32 (of_int (s - 1) + 1 / 2) = of_int (s - 1) + 1 / 2"
    by (rule round32_half_int) (use s in simp_all)
  have ql: "1 / 2 \<le> ?q"
    using round32_mono [of "1 / 2" "?p + 1 / 2"] p(1) half_exact by simp
  have qu: "?q \<le> of_int (s - 1) + 1 / 2"
    using round32_mono [of "?p + 1 / 2" "of_int (s - 1) + 1 / 2"] p h by simp
  have "?q \<le> of_int s" using qu by simp
  moreover have "\<bar>s\<bar> < 2 ^ 24" using s by simp
  then have "(of_int \<bar>s\<bar> :: rat) < of_int (2 ^ 24)" by (simp only: of_int_less_iff)
  then have "(of_int s :: rat) < 2 powi 128" using s(1) by simp
  ultimately have "\<bar>?q\<bar> < 2 powi 128" using ql by simp
  then have ad: "to_f32 (?p + 1 / 2) = Finite ?q"
    by (simp add: to_f32_def)
  have q0: "0 \<le> ?q" using ql by simp
  have "s < 2 ^ 31" using s(2) by simp
  from f32_to_int_nonneg [OF q0 \<open>?q \<le> of_int s\<close> this]
  have "f32_to_int (Finite ?q) = Some \<lfloor>?q\<rfloor>" by simp
  then have "LerpTable_idx False s (Finite r) = Some \<lfloor>?q\<rfloor>"
    by (simp add: LerpTable_idx_def f32_of_int_exact [OF a] m ad del: of_int_diff)
  with p ql qu show ?thesis by simp
qed

lemma LerpTable_idx_range:
  assumes s: "1 \<le> s" "s \<le> 2 ^ 23" and r: "0 \<le> r" "r \<le> 1"
  shows "\<exists>idx. LerpTable_idx q s (Finite r) = Some idx \<and> 0 \<le> idx \<and> idx < s"
proof (cases q)
  case True
  have "s < 2 ^ 24" using s(2) by simp
  from LerpTable_idx_qual [OF s(1) this r] ImClamp_range [of "s - 1" "\<lfloor>round32 (of_int s * r)\<rfloor>"] s(1)
  show ?thesis using True by simp
next
  case False
  let ?q = "round32 (round32 (of_int (s - 1) * r) + 1 / 2)"
  from LerpTable_idx_cont [OF s r] have
    i: "LerpTable_idx False s (Finite r) = Some \<lfloor>?q\<rfloor>" and
    l: "1 / 2 \<le> ?q" and u: "?q \<le> of_int (s - 1) + 1 / 2"
    by simp_all
  have "0 \<le> \<lfloor>?q\<rfloor>" using l by simp
  moreover have "?q < of_int s" using u by simp
  then have "\<lfloor>?q\<rfloor> < s" by (simp add: floor_less_iff)
  ultimately show ?thesis using i False by simp
qed

lemma LerpTable_via_idx:
  assumes "vget (TableSizes d) cmap = Some s" "vget (Quals d) cmap = Some q"
    and "LerpTable_idx q s t = Some idx"
  shows "LerpTable d cmap t = GetTableColor d cmap idx"
  using assms by (simp add: LerpTable_def GetTableColor_def split: bind_splits)

lemma round32_grid:
  assumes "2 powi j < round32 y" "j \<le> 128"
  shows "\<exists>M. round32 y = of_int M * 2 powi (j - 23)"
proof -
  define e where "e = fexp y"
  have ge: "j - 23 \<le> e"
  proof (rule ccontr)
    assume "\<not> j - 23 \<le> e"
    then have l: "e + 24 \<le> j" by simp
    then have "fexp y < 105" using assms(2) by (simp add: e_def)
    from round32_upper [OF this] have "round32 y \<le> 2 powi (e + 24)" by (simp add: e_def)
    also have "\<dots> \<le> 2 powi j" by (rule two_powi_mono [OF l])
    finally show False using assms(1) by simp
  qed
  then have "0 \<le> e - (j - 23)" by simp
  then obtain i where "e - (j - 23) = int i"
    using zero_le_imp_eq_int by blast
  then have i: "e = (j - 23) + int i" by simp
  have "(2 :: rat) powi e = 2 powi (j - 23) * 2 ^ i"
    unfolding i by (simp add: power_int_add)
  then have "round32 y = of_int (rne (y / 2 powi e) * 2 ^ i) * 2 powi (j - 23)"
    by (simp add: round32_def e_def)
  then show ?thesis by blast
qed

lemma round32_sum_below_pos:
  assumes n: "1 \<le> n" "n < 2 ^ 23"
    and p: "of_int n < round32 y" "round32 y < of_int n + 1 / 2"
  shows "round32 (round32 y + 1 / 2) < of_int n + 1"
proof -
  let ?p = "round32 y"
  have "2 \<le> (2 :: nat)" by simp
  moreover have "1 \<le> nat n" using n by simp
  ultimately obtain j where j: "2 ^ j \<le> nat n" "nat n < 2 ^ (j + 1)"
    using ex_power_ivl1 [of 2 "nat n"] by blast
  have jn: "(2 :: int) ^ j \<le> n" "n < 2 ^ (j + 1)"
    using j n(1) by (simp_all add: nat_le_iff nat_less_iff)
  have "(2 :: int) ^ j < 2 ^ 23" using jn(1) n(2) by simp
  then have "j < 23"
    by (rule power_less_imp_less_exp [rotated]) simp
  then have j22: "j \<le> 22" by simp
  define g :: rat where "g = 2 powi (int j - 23)"
  have gpos: "0 < g" by (simp add: g_def)
  have "(2 :: rat) powi int j = of_int (2 ^ j)"
    by (simp add: power_int_of_nat)
  also have "\<dots> \<le> of_int n"
    using jn(1) by (simp only: of_int_le_iff)
  also have "\<dots> < ?p" by (rule p(1))
  finally have "(2 :: rat) powi int j < ?p" .
  from round32_grid [OF this] j22 obtain M where M: "?p = of_int M * g"
    by (auto simp: g_def)
  have half: "(2 :: rat) ^ (22 - j) * g = 1 / 2"
  proof -
    have "(2 :: rat) ^ (22 - j) * g = 2 powi (int (22 - j)) * 2 powi (int j - 23)"
      by (simp add: g_def power_int_of_nat)
    also have "\<dots> = 2 powi (int (22 - j) + (int j - 23))"
      by (simp add: power_int_add)
    also have "int (22 - j) + (int j - 23) = - 1" using j22 by simp
    finally show ?thesis by simp
  qed
  have one: "(2 :: rat) ^ (23 - j) * g = 1"
  proof -
    have "(2 :: rat) ^ (23 - j) * g = 2 powi (int (23 - j)) * 2 powi (int j - 23)"
      by (simp add: g_def power_int_of_nat)
    also have "\<dots> = 2 powi (int (23 - j) + (int j - 23))"
      by (simp add: power_int_add)
    also have "int (23 - j) + (int j - 23) = 0" using j22 by simp
    finally show ?thesis by simp
  qed
  define N where "N = (2 * n + 1) * 2 ^ (22 - j)"
  have N: "of_int n + 1 / 2 = of_int N * g"
  proof -
    have "of_int N * g = of_int (2 * n + 1) * ((2 :: rat) ^ (22 - j) * g)"
      by (simp add: N_def)
    also have "\<dots> = of_int n + 1 / 2"
      unfolding half by (simp add: field_simps)
    finally show ?thesis by simp
  qed
  have "of_int M * g < of_int N * g" using p(2) M N by simp
  then have "(of_int M :: rat) < of_int N" using gpos by simp
  then have "M \<le> N - 1" by simp
  then have "(of_int M :: rat) \<le> of_int (N - 1)" by (simp only: of_int_le_iff)
  then have "of_int M * g \<le> of_int (N - 1) * g"
    using gpos by (simp add: mult_right_mono)
  then have le: "?p + 1 / 2 \<le> of_int n + 1 - g"
    using M N by (simp add: algebra_simps)
  define m where "m = (n + 1) * 2 ^ (23 - j) - 1"
  have mg: "of_int n + 1 - g = of_int m * g"
  proof -
    have "of_int m * g = of_int (n + 1) * ((2 :: rat) ^ (23 - j) * g) - g"
      by (simp add: m_def algebra_simps)
    also have "\<dots> = of_int n + 1 - g"
      unfolding one by simp
    finally show ?thesis by simp
  qed
  have "(n + 1) * 2 ^ (23 - j) \<le> 2 ^ (j + 1) * 2 ^ (23 - j)"
    using jn(2) by (intro mult_right_mono) simp_all
  also have "(2 :: int) ^ (j + 1) * 2 ^ (23 - j) = 2 ^ ((j + 1) + (23 - j))"
    by (simp only: power_add)
  also have "(j + 1) + (23 - j) = 24" using j22 by simp
  finally have "m < 2 ^ 24" by (simp add: m_def)
  moreover have "0 \<le> m" using n(1) by (simp add: m_def)
  ultimately have "\<bar>m\<bar> < 2 ^ 24" by simp
  from round32_exact [OF _ this, of "int j - 23"]
  have ex: "round32 (of_int n + 1 - g) = of_int n + 1 - g"
    unfolding mg by (simp add: g_def)
  have "0 \<le> ?p + 1 / 2" using p(1) n(1) by simp
  from round32_mono [OF this le] ex gpos show ?thesis by simp
qed

lemma round32_sum_below_zero:
  assumes p: "0 \<le> round32 y" "round32 y < 1 / 2" "round32 y \<noteq> 1 / 2 - 1 / 2 ^ 25"
  shows "round32 (round32 y + 1 / 2) < 1"
proof -
  let ?p = "round32 y"
  have ex: "round32 (1 - 1 / 2 ^ 24) = 1 - 1 / 2 ^ 24"
    using round32_exact [of "- 24" "2 ^ 24 - 1"] by (simp add: power_int_minus field_simps)
  have "?p \<le> 1 / 2 - 1 / 2 ^ 24"
  proof (rule ccontr)
    assume "\<not> ?p \<le> 1 / 2 - 1 / 2 ^ 24"
    then have l: "1 / 2 - 1 / 2 ^ 24 < ?p" by simp
    have "(2 :: rat) powi (- 2) < 1 / 2 - 1 / 2 ^ 24"
      by (simp add: power_int_minus)
    with l have "(2 :: rat) powi (- 2) < ?p" by simp
    from round32_grid [OF this] obtain M where M: "?p = of_int M * 2 powi (- 25)"
      by auto
    have g: "(2 :: rat) powi (- 25) = 1 / 2 ^ 25" by (simp add: power_int_minus field_simps)
    have "of_int (2 ^ 24 - 2) * (1 / 2 ^ 25) < of_int M * (1 / 2 ^ 25 :: rat)"
      using l M g by (simp add: field_simps)
    then have "(of_int (2 ^ 24 - 2) :: rat) < of_int M" by simp
    then have a: "2 ^ 24 - 2 < M" by (simp only: of_int_less_iff)
    have "of_int M * (1 / 2 ^ 25 :: rat) < of_int (2 ^ 24) * (1 / 2 ^ 25)"
      using p(2) M g by (simp add: field_simps)
    then have "(of_int M :: rat) < of_int (2 ^ 24)" by simp
    then have b: "M < 2 ^ 24" by (simp only: of_int_less_iff)
    from a b have "M = 2 ^ 24 - 1" by simp
    then have "?p = 1 / 2 - 1 / 2 ^ 25"
      using M g by (simp add: field_simps)
    with p(3) show False by simp
  qed
  then have le: "?p + 1 / 2 \<le> 1 - 1 / 2 ^ 24" by simp
  have "0 \<le> ?p + 1 / 2" using p(1) by simp
  from round32_mono [OF this le] ex show ?thesis by simp
qed

lemma round_half_up_single:
  assumes p: "0 \<le> round32 y" "round32 y \<le> 2 ^ 23 - 1"
    and x: "round32 y \<noteq> 1 / 2 - 1 / 2 ^ 25"
  shows "\<lfloor>round32 (round32 y + 1 / 2)\<rfloor> = \<lfloor>round32 y + 1 / 2\<rfloor>"
proof -
  let ?p = "round32 y"
  define n where "n = \<lfloor>?p + 1 / 2\<rfloor>"
  have n0: "0 \<le> n" using p(1) by (simp add: n_def)
  have nl: "of_int n \<le> ?p + 1 / 2" by (simp add: n_def)
  have nu: "?p + 1 / 2 < of_int n + 1"
    using floor_correct [of "?p + 1 / 2"] by (simp add: n_def)
  have "?p + 1 / 2 < 2 ^ 23" using p(2) by simp
  then have "(of_int n :: rat) < of_int (2 ^ 23)" using nl by simp
  then have n23: "n < 2 ^ 23" by (simp only: of_int_less_iff)
  have lower: "of_int n \<le> round32 (?p + 1 / 2)"
  proof -
    have "\<bar>n\<bar> < 2 ^ 24" using n0 n23 by simp
    from round32_of_int [OF this] round32_mono [OF _ nl] n0 show ?thesis by simp
  qed
  have upper: "round32 (?p + 1 / 2) < of_int n + 1"
  proof (cases "?p \<le> of_int n")
    case True
    then have "?p + 1 / 2 \<le> of_int n + 1 / 2" by simp
    moreover have "0 \<le> ?p + 1 / 2" using p(1) by simp
    ultimately have "round32 (?p + 1 / 2) \<le> round32 (of_int n + 1 / 2)"
      by (rule round32_mono [rotated])
    with round32_half_int [OF n0 n23] show ?thesis by simp
  next
    case False
    then have a: "of_int n < ?p" by simp
    have b: "?p < of_int n + 1 / 2" using nu by simp
    show ?thesis
    proof (cases "n = 0")
      case True
      with b have "?p < 1 / 2" by simp
      from round32_sum_below_zero [OF p(1) this x] True show ?thesis by simp
    next
      case False
      with n0 have "1 \<le> n" by simp
      from round32_sum_below_pos [OF this n23 a b] show ?thesis .
    qed
  qed
  have "\<lfloor>round32 (?p + 1 / 2)\<rfloor> = n"
    using lower upper by (simp add: floor_eq_iff)
  then show ?thesis by (simp add: n_def)
qed

lemma floor_rat_numeral_div:
  "\<lfloor>numeral a / numeral b :: rat\<rfloor> = numeral a div numeral b"
  using floor_divide_of_int_eq [of "numeral a" "numeral b", where ?'a = rat] by simp

lemma round32_below_one: "round32 (1 - 1 / 2 ^ 25) = 1"
proof -
  have x: "(1 - 1 / 2 ^ 25 :: rat) = 33554431 / 33554432" by simp
  have e: "fexp (33554431 / 33554432) = - 24"
    by (rule fexp_eqI) (simp_all add: power_int_minus)
  show ?thesis
    unfolding x
    by (simp add: round32_def e rne_def Let_def power_int_minus floor_rat_numeral_div)
qed

lemma reachable_colormap:
  assumes r: "reachable mix64 hash d" and c: "0 \<le> cmap" "cmap < Count d"
  shows "\<exists>c. cm_keys c \<noteq> [] \<and>
           vget (Quals d) cmap = Some (cm_qual c) \<and>
           vget (TableSizes d) cmap = Some (int (length (cm_table mix64 c))) \<and>
           table_of d cmap = Some (cm_table mix64 c) \<and>
           keys_of d cmap = Some (cm_keys c) \<and>
           (\<forall>j < length (cm_table mix64 c).
              GetTableColor d cmap (int j) = Some (cm_table mix64 c ! j)) \<and>
           (\<forall>j < length (cm_keys c).
              GetKeyColor d cmap (int j) = Some (cm_keys c ! j))"
proof -
  from reachable_registry [OF r] obtain cms where
    g: "good hash cms" and d: "d = registry mix64 hash cms"
    by blast
  let ?n = "nat cmap"
  let ?c = "cms ! ?n"
  have n: "?n < length cms" using c unfolding d by (simp add: nat_less_iff)
  have i: "int ?n = cmap" using c(1) by simp
  have "?c \<in> set cms" using n by simp
  with g have k: "cm_keys ?c \<noteq> []" by (auto simp: good_def)
  have q: "vget (Quals d) cmap = Some (cm_qual ?c)"
    using n c(1) unfolding d by (simp add: registry_def registry_upto_def vget_def)
  have s: "vget (TableSizes d) cmap = Some (int (length (cm_table mix64 ?c)))"
    using GetTableSize_registry [OF n, of mix64 hash] cm_table_size_eq [OF k, of mix64]
    unfolding d i by (simp add: GetTableSize_def)
  have t: "table_of d cmap = Some (cm_table mix64 ?c)"
    using table_of_registry [OF n k, of mix64 hash] unfolding d i .
  have ks: "keys_of d cmap = Some (cm_keys ?c)"
    using keys_of_registry [OF n k, of mix64 hash] unfolding d i .
  have tc: "\<forall>j < length (cm_table mix64 ?c).
      GetTableColor d cmap (int j) = Some (cm_table mix64 ?c ! j)"
    using GetTableColor_registry [OF n, of _ mix64 hash] unfolding d i by blast
  have kc: "\<forall>j < length (cm_keys ?c). GetKeyColor d cmap (int j) = Some (cm_keys ?c ! j)"
    using GetKeyColor_registry [OF n, of _ mix64 hash] unfolding d i by blast
  from k q s t ks tc kc show ?thesis by blast
qed

lemma cm_table_first:
  assumes "cm_keys c \<noteq> []"
  shows "cm_table mix64 c ! 0 = cm_keys c ! 0"
proof (cases "cm_qual c")
  case True
  then show ?thesis by (simp add: cm_table_def)
next
  case False
  have "ramp mix64 (cm_keys c) \<noteq> []" by (simp add: ramp_def)
  with hd_ramp [OF assms, of mix64] assms False show ?thesis
    by (simp add: cm_table_def hd_conv_nth)
qed

text \<open>
  For a table of at most \<open>2\<^sup>2\<^sup>3\<close> entries and \<open>t\<close> in \<open>[0, 1]\<close> the index is in
  range, in both branches, and the lookup returns an entry of the colormap's own table.
\<close>

lemma LerpTable_index_in_range:
  assumes r: "reachable mix64 hash d" and c: "0 \<le> cmap" "cmap < Count d"
    and s: "GetTableSize d cmap = Some s" "1 \<le> s" "s \<le> 2 ^ 23"
    and t: "0 \<le> r" "r \<le> 1"
  shows "\<exists>q idx tbl.
           IsQual d cmap = Some q \<and> LerpTable_idx q s (Finite r) = Some idx \<and>
           0 \<le> idx \<and> idx < s \<and>
           table_of d cmap = Some tbl \<and> int (length tbl) = s \<and>
           LerpTable d cmap (Finite r) = Some (tbl ! nat idx)"
proof -
  from reachable_colormap [OF r c] obtain cm where
    q: "vget (Quals d) cmap = Some (cm_qual cm)" and
    sz: "vget (TableSizes d) cmap = Some (int (length (cm_table mix64 cm)))" and
    tb: "table_of d cmap = Some (cm_table mix64 cm)" and
    tc: "\<forall>j < length (cm_table mix64 cm).
          GetTableColor d cmap (int j) = Some (cm_table mix64 cm ! j)"
    by blast
  have l: "int (length (cm_table mix64 cm)) = s"
    using s(1) sz by (simp add: GetTableSize_def)
  from LerpTable_idx_range [OF s(2,3) t, of "cm_qual cm"] obtain idx where
    i: "LerpTable_idx (cm_qual cm) s (Finite r) = Some idx" "0 \<le> idx" "idx < s"
    by blast
  have "nat idx < length (cm_table mix64 cm)" using i(2,3) l by linarith
  with tc have "GetTableColor d cmap (int (nat idx)) = Some (cm_table mix64 cm ! nat idx)"
    by blast
  then have "GetTableColor d cmap idx = Some (cm_table mix64 cm ! nat idx)"
    using i(2) by simp
  moreover have "LerpTable d cmap (Finite r) = GetTableColor d cmap idx"
    by (rule LerpTable_via_idx [OF _ q i(1)]) (use sz l in simp)
  ultimately show ?thesis
    using q i tb l by (auto simp: IsQual_def)
qed

lemma LerpTable_idx_zero:
  assumes s: "1 \<le> s" "s < 2 ^ 31"
  shows "LerpTable_idx q s (Finite 0) = Some 0"
proof -
  have big: "round32 (2 ^ 31) = 2 ^ 31"
    using round32_exact [of 8 "2 ^ 23"] by simp
  have fin: "\<exists>a. f32_of_int n = Finite a" if n: "0 \<le> n" "n \<le> 2 ^ 31" for n
  proof -
    have "(of_int n :: rat) \<le> of_int (2 ^ 31)" using n(2) by (simp only: of_int_le_iff)
    then have "(of_int n :: rat) \<le> 2 ^ 31" by simp
    from round32_mono [OF _ this] n(1) big have "round32 (of_int n) \<le> 2 ^ 31" by simp
    moreover have "0 \<le> round32 (of_int n)" using n(1) by (simp add: round32_nonneg)
    moreover have "(2 :: rat) ^ 31 < 2 powi 128" by simp
    ultimately have "\<bar>round32 (of_int n)\<bar> < 2 powi 128" by linarith
    then show ?thesis by (simp add: f32_of_int_def to_f32_def)
  qed
  have z: "to_f32 0 = Finite 0" by (simp add: to_f32_def)
  have h: "to_f32 (1 / 2) = Finite (1 / 2)" by (simp add: to_f32_def half_exact)
  have i0: "f32_to_int (Finite 0) = Some 0" by (simp add: f32_to_int.simps)
  have "\<lfloor>1 / 2 :: rat\<rfloor> = 0" by (simp add: floor_eq_iff)
  then have ih: "f32_to_int (Finite (1 / 2)) = Some 0" by (simp add: f32_to_int.simps)
  show ?thesis
  proof (cases q)
    case True
    from fin [of s] s obtain a where "f32_of_int s = Finite a" by auto
    then show ?thesis using True s(1) by (simp add: LerpTable_idx_def z i0 ImClamp_def)
  next
    case False
    from fin [of "s - 1"] s obtain a where "f32_of_int (s - 1) = Finite a" by auto
    then show ?thesis using False by (simp add: LerpTable_idx_def z h ih)
  qed
qed

lemma LerpTable_idx_one:
  assumes s: "1 \<le> s" "s \<le> 2 ^ 23"
  shows "LerpTable_idx q s (Finite 1) = Some (s - 1)"
proof (cases q)
  case True
  have a: "\<bar>s\<bar> < 2 ^ 24" using s by simp
  have "s < 2 ^ 24" using s by simp
  from LerpTable_idx_qual [OF s(1) this, of 1] round32_of_int [OF a] s(1) True
  show ?thesis by (simp add: ImClamp_def)
next
  case False
  have a: "\<bar>s - 1\<bar> < 2 ^ 24" using s by simp
  have h: "round32 (of_int (s - 1) + 1 / 2) = of_int (s - 1) + 1 / 2"
    by (rule round32_half_int) (use s in simp_all)
  have "\<lfloor>of_int (s - 1) + 1 / 2 :: rat\<rfloor> = s - 1"
    by (simp add: floor_eq_iff)
  with LerpTable_idx_cont [OF s, of 1] round32_of_int [OF a] h False
  show ?thesis by (simp del: of_int_diff)
qed

text \<open>
  At \<open>t = 0\<close> \<^verbatim>\<open>LerpTable\<close> returns the first table entry, which is the first
  key, for every non-empty table; at \<open>t = 1\<close> it returns the last entry when the table
  has at most \<open>2\<^sup>2\<^sup>3\<close> entries.
\<close>

lemma LerpTable_endpoints:
  assumes r: "reachable mix64 hash d" and c: "0 \<le> cmap" "cmap < Count d"
    and s: "GetTableSize d cmap = Some s" "1 \<le> s" "s < 2 ^ 31"
  shows "\<exists>tbl ks.
           table_of d cmap = Some tbl \<and> keys_of d cmap = Some ks \<and> int (length tbl) = s \<and>
           ks \<noteq> [] \<and> tbl ! 0 = ks ! 0 \<and>
           LerpTable d cmap (Finite 0) = Some (tbl ! 0) \<and>
           (s \<le> 2 ^ 23 \<longrightarrow> LerpTable d cmap (Finite 1) = Some (tbl ! (length tbl - 1)))"
proof -
  from reachable_colormap [OF r c] obtain cm where
    k: "cm_keys cm \<noteq> []" and
    q: "vget (Quals d) cmap = Some (cm_qual cm)" and
    sz: "vget (TableSizes d) cmap = Some (int (length (cm_table mix64 cm)))" and
    tb: "table_of d cmap = Some (cm_table mix64 cm)" and
    ks: "keys_of d cmap = Some (cm_keys cm)" and
    tc: "\<forall>j < length (cm_table mix64 cm).
          GetTableColor d cmap (int j) = Some (cm_table mix64 cm ! j)"
    by blast
  let ?t = "cm_table mix64 cm"
  have l: "int (length ?t) = s"
    using s(1) sz by (simp add: GetTableSize_def)
  have ne: "?t \<noteq> []" using l s(2) by auto
  from cm_table_first [OF k] k have f: "cm_keys cm \<noteq> []" "?t ! 0 = cm_keys cm ! 0"
    by simp_all
  have sz': "vget (TableSizes d) cmap = Some s" using sz l by simp
  have "0 < length ?t" using ne by simp
  with tc have "GetTableColor d cmap (int 0) = Some (?t ! 0)" by blast
  moreover have "LerpTable d cmap (Finite 0) = GetTableColor d cmap 0"
    by (rule LerpTable_via_idx [OF sz' q LerpTable_idx_zero [OF s(2,3)]])
  ultimately have z: "LerpTable d cmap (Finite 0) = Some (?t ! 0)" by simp
  have o: "LerpTable d cmap (Finite 1) = Some (?t ! (length ?t - 1))" if b: "s \<le> 2 ^ 23"
  proof -
    have "length ?t - 1 < length ?t" using ne by simp
    with tc have "GetTableColor d cmap (int (length ?t - 1)) = Some (?t ! (length ?t - 1))"
      by blast
    moreover have "int (length ?t - 1) = s - 1" using l ne by (cases ?t) auto
    moreover have "LerpTable d cmap (Finite 1) = GetTableColor d cmap (s - 1)"
      by (rule LerpTable_via_idx [OF sz' q LerpTable_idx_one [OF s(2) b]])
    ultimately show ?thesis by simp
  qed
  from tb ks l f z o show ?thesis by blast
qed

lemma Append_first:
  assumes "keys \<noteq> []"
    and "cm_table_size \<lparr>cm_name = c_str name, cm_keys = keys, cm_qual = qual\<rparr> \<le> INT_MAX"
  shows "Append mix64 hash ImPlot3DColormapData_ctor name keys (int (length keys)) qual =
           Some (0, registry mix64 hash [\<lparr>cm_name = c_str name, cm_keys = keys, cm_qual = qual\<rparr>])"
proof -
  have g: "good hash []" by (simp add: good_def INT_MAX_def)
  have u: "GetIndex hash (registry mix64 hash []) name = - 1"
    by (simp add: registry_empty GetIndex_def ImPlot3DColormapData_ctor_def)
  from Append_registry [OF g u, where keys = keys and count = "int (length keys)" and qual = qual]
    assms
  show ?thesis
    by (simp add: registry_empty)
qed

lemma length_big_keys: "length big_keys = 32898"
  by (simp only: big_keys_def length_replicate)

lemma big_keys_nonempty: "big_keys \<noteq> []"
  using length_big_keys by auto

lemma last_big_keys: "last big_keys = 0"
  unfolding big_keys_def by (rule last_replicate) simp

lemma Append_rb:
  "Append False length_hash ImPlot3DColormapData_ctor ''RB'' [0xFF0000FF, 0x0000FFFF] 2 False =
     Some (0, rb_registry)"
  using Append_first [of "[0xFF0000FF, 0x0000FFFF]" "''RB''" False False length_hash]
  by (simp add: rb_registry_def c_str_def NUL_def cm_table_size_def INT_MAX_def)

lemma reachable_rb: "reachable False length_hash rb_registry"
  using reachable.append [OF reachable.ctor Append_rb] .

lemma Append_big:
  "Append False length_hash ImPlot3DColormapData_ctor ''big'' big_keys 32898 False =
     Some (0, big_registry)"
  using Append_first [of big_keys "''big''" False False length_hash] big_keys_nonempty
  by (simp add: big_registry_def c_str_def NUL_def length_big_keys cm_table_size_def INT_MAX_def)

lemma reachable_big: "reachable False length_hash big_registry"
  using reachable.append [OF reachable.ctor Append_big] .

lemma big_table_size: "GetTableSize big_registry 0 = Some 8388736"
  using GetTableSize_registry [of 0 "[\<lparr>cm_name = ''big'', cm_keys = big_keys, cm_qual = False\<rparr>]"
      False length_hash]
  by (simp add: big_registry_def cm_table_size_def length_big_keys)

lemma big_tables_length: "length (Tables big_registry) = 8388736"
  by (simp add: big_registry_def registry_def registry_upto_def cm_table_def length_ramp
      length_big_keys)

lemma big_qual: "IsQual big_registry 0 = Some False"
  by (simp add: big_registry_def registry_def registry_upto_def IsQual_def vget_def)

lemma big_offset: "vget (TableOffsets big_registry) 0 = Some 0"
  by (simp add: big_registry_def registry_def registry_upto_def vget_def offsets_def)

lemma big_last_entry: "GetTableColor big_registry 0 8388735 = Some 0"
proof -
  let ?c = "\<lparr>cm_name = ''big'', cm_keys = big_keys, cm_qual = False\<rparr>"
  have t: "cm_table False ([?c] ! 0) = ramp False big_keys"
    by (simp add: cm_table_def)
  have l: "length (ramp False big_keys) = 8388736"
    by (simp add: length_ramp length_big_keys)
  have "ramp False big_keys ! (length (ramp False big_keys) - 1) = last (ramp False big_keys)"
    by (rule last_conv_nth [symmetric]) (simp add: ramp_def)
  then have e: "ramp False big_keys ! 8388735 = 0"
    by (simp add: l last_ramp last_big_keys)
  have "(8388735 :: nat) < length (cm_table False ([?c] ! 0))"
    unfolding t l by simp
  from GetTableColor_registry [OF _ this, of length_hash] show ?thesis
    unfolding t e by (simp add: big_registry_def)
qed

lemma idx_big: "LerpTable_idx False 8388736 (Finite 1) = Some 8388736"
proof -
  have a: "f32_of_int 8388735 = Finite 8388735"
    using f32_of_int_exact [of 8388735] by simp
  have m: "to_f32 8388735 = Finite 8388735"
    using a by (simp add: f32_of_int_def)
  have e: "fexp (16777471 / 2) = 0"
    by (rule fexp_eqI) simp_all
  have r: "round32 (16777471 / 2) = 8388736"
    by (simp add: round32_def e rne_def Let_def floor_rat_numeral_div)
  have s: "to_f32 (16777471 / 2) = Finite 8388736"
    by (simp add: to_f32_def r)
  show ?thesis
    by (simp add: LerpTable_idx_def a m s f32_to_int.simps)
qed

lemma LerpTable_big: "LerpTable big_registry 0 (Finite 1) = None"
proof -
  have "vget (TableSizes big_registry) 0 = Some 8388736"
    using big_table_size by (simp add: GetTableSize_def)
  moreover have "vget (Quals big_registry) 0 = Some False"
    using big_qual by (simp add: IsQual_def)
  moreover have "vget (Tables big_registry) (0 + 8388736) = None"
    by (simp add: vget_def big_tables_length)
  ultimately show ?thesis
    by (simp add: LerpTable_def big_offset idx_big)
qed

text \<open>
  Claim C2, as amended. In a registry the interface can produce, take a colormap whose
  table has \<open>1 \<le> s \<le> 2\<^sup>2\<^sup>3\<close> entries and \<open>t\<close> in \<open>[0, 1]\<close>. A qualitative
  \<^verbatim>\<open>LerpTable\<close> returns the entry at \<open>clamp(\<lfloor>s * t\<rfloor>, 0, s - 1)\<close>, the product taken
  in single precision. A continuous one returns the entry at \<open>\<lfloor>p + 1/2\<rfloor>\<close>, where
  \<open>p\<close> is the single-precision product \<open>(s - 1) * t\<close>, with one exception: when
  \<open>p\<close> is the \<^verbatim>\<open>float\<close> just below one half, \<open>1/2 - 2\<^sup>-\<^sup>2\<^sup>5\<close>, the sum
  \<^verbatim>\<open>p + 0.5f\<close> rounds up to \<open>1\<close> and the entry at index \<open>1\<close> is returned, not the
  one at \<open>\<lfloor>p + 1/2\<rfloor> = 0\<close>. The witness is the spec's example: size \<open>256\<close>,
  \<open>t = 0.5\<close>, index \<open>128\<close>.
\<close>

theorem LerpTable_index_policy:
  assumes r: "reachable mix64 hash d" and c: "0 \<le> cmap" "cmap < Count d"
    and s: "GetTableSize d cmap = Some s" "1 \<le> s" "s \<le> 2 ^ 23"
    and t: "0 \<le> r" "r \<le> 1"
  shows "\<exists>q tbl.
           IsQual d cmap = Some q \<and> table_of d cmap = Some tbl \<and> int (length tbl) = s \<and>
           (q \<longrightarrow>
              LerpTable d cmap (Finite r) =
                Some (tbl ! nat (ImClamp \<lfloor>round32 (of_int s * r)\<rfloor> 0 (s - 1)))) \<and>
           (\<not> q \<longrightarrow> round32 (of_int (s - 1) * r) \<noteq> 1 / 2 - 1 / 2 ^ 25 \<longrightarrow>
              LerpTable d cmap (Finite r) =
                Some (tbl ! nat \<lfloor>round32 (of_int (s - 1) * r) + 1 / 2\<rfloor>)) \<and>
           (\<not> q \<longrightarrow> round32 (of_int (s - 1) * r) = 1 / 2 - 1 / 2 ^ 25 \<longrightarrow>
              LerpTable d cmap (Finite r) = Some (tbl ! 1))"
proof -
  from LerpTable_index_in_range [OF r c s t] obtain q idx tbl where
    q: "IsQual d cmap = Some q" and
    i: "LerpTable_idx q s (Finite r) = Some idx" and
    tb: "table_of d cmap = Some tbl" "int (length tbl) = s" and
    l: "LerpTable d cmap (Finite r) = Some (tbl ! nat idx)"
    by blast
  let ?p = "round32 (of_int (s - 1) * r)"
  have a: "idx = ImClamp \<lfloor>round32 (of_int s * r)\<rfloor> 0 (s - 1)" if q
  proof -
    have "s < 2 ^ 24" using s(3) by simp
    from LerpTable_idx_qual [OF s(2) this t] i that show ?thesis by simp
  qed
  from LerpTable_idx_cont [OF s(2,3) t] have
    ic: "LerpTable_idx False s (Finite r) = Some \<lfloor>round32 (?p + 1 / 2)\<rfloor>" and
    p: "0 \<le> ?p" "?p \<le> of_int (s - 1)"
    by simp_all
  have "(of_int (s - 1) :: rat) \<le> of_int (2 ^ 23 - 1)"
    using s(3) by (simp only: of_int_le_iff)
  then have pu: "?p \<le> 2 ^ 23 - 1" using p(2) by simp
  have b: "idx = \<lfloor>?p + 1 / 2\<rfloor>" if "\<not> q" "?p \<noteq> 1 / 2 - 1 / 2 ^ 25"
    using round_half_up_single [OF p(1) pu that(2)] ic i that(1) by simp
  have e: "idx = 1" if "\<not> q" "?p = 1 / 2 - 1 / 2 ^ 25"
  proof -
    have "?p + 1 / 2 = 1 - 1 / 2 ^ 25" using that(2) by simp
    then have "round32 (?p + 1 / 2) = 1" by (simp only: round32_below_one)
    with ic i that(1) show ?thesis by simp
  qed
  from q tb l a b e show ?thesis by (auto simp del: of_int_diff)
qed

lemma rb_table_size: "GetTableSize rb_registry 0 = Some 256"
  using GetTableSize_registry
    [of 0 "[\<lparr>cm_name = ''RB'', cm_keys = [0xFF0000FF, 0x0000FFFF], cm_qual = False\<rparr>]"
      False length_hash]
  by (simp add: rb_registry_def cm_table_size_def)

lemma rb_qual: "IsQual rb_registry 0 = Some False"
  by (simp add: rb_registry_def registry_def registry_upto_def IsQual_def vget_def)

lemma rb_count: "Count rb_registry = 1"
  by (simp add: rb_registry_def)

theorem LerpTable_index_policy_witness:
  "reachable False length_hash rb_registry \<and>
   GetTableSize rb_registry 0 = Some 256 \<and>
   IsQual rb_registry 0 = Some False \<and>
   (\<exists>tbl. table_of rb_registry 0 = Some tbl \<and> int (length tbl) = 256 \<and>
      LerpTable rb_registry 0 (Finite (1 / 2)) = Some (tbl ! 128))"
proof -
  have c: "(0 :: int) \<le> 0" "0 < Count rb_registry" by (simp_all add: rb_count)
  have s: "(1 :: int) \<le> 256" "(256 :: int) \<le> 2 ^ 23" by simp_all
  have t: "(0 :: rat) \<le> 1 / 2" "(1 / 2 :: rat) \<le> 1" by simp_all
  have p: "round32 (of_int (256 - 1) * (1 / 2)) = 255 / 2"
    using round32_exact [of "- 1" 255] by simp
  have n: "(255 / 2 :: rat) \<noteq> 1 / 2 - 1 / 2 ^ 25" by simp
  have f: "nat \<lfloor>255 / 2 + 1 / 2 :: rat\<rfloor> = 128" by simp
  from LerpTable_index_policy [OF reachable_rb c rb_table_size s t] obtain q tbl where
    "IsQual rb_registry 0 = Some q" "table_of rb_registry 0 = Some tbl" "int (length tbl) = 256"
    "\<not> q \<longrightarrow> round32 (of_int (256 - 1) * (1 / 2)) \<noteq> 1 / 2 - 1 / 2 ^ 25 \<longrightarrow>
       LerpTable rb_registry 0 (Finite (1 / 2)) =
         Some (tbl ! nat \<lfloor>round32 (of_int (256 - 1) * (1 / 2)) + 1 / 2\<rfloor>)"
    by blast
  then have "table_of rb_registry 0 = Some tbl \<and> int (length tbl) = 256 \<and>
      LerpTable rb_registry 0 (Finite (1 / 2)) = Some (tbl ! 128)"
    using rb_qual unfolding p using n f by simp
  with reachable_rb rb_table_size rb_qual show ?thesis by blast
qed

lemma rb_entries:
  "GetTableColor rb_registry 0 0 = Some 0xFF0000FF"
  "GetTableColor rb_registry 0 1 = Some 0xFE0000FF"
proof -
  let ?c = "\<lparr>cm_name = ''RB'', cm_keys = [0xFF0000FF, 0x0000FFFF], cm_qual = False\<rparr>"
  have t: "cm_table False ([?c] ! 0) = ramp False [0xFF0000FF, 0x0000FFFF]"
    by (simp add: cm_table_def)
  have l: "length (ramp False [0xFF0000FF, 0x0000FFFF]) = 256"
    by (simp add: length_ramp)
  have r0: "ramp False [0xFF0000FF, 0x0000FFFF] ! 0 = 0xFF0000FF"
    by (simp add: ramp_def segment_def nth_append ImMixU32_zero)
  have r1: "ramp False [0xFF0000FF, 0x0000FFFF] ! 1 = 0xFE0000FF"
    by (simp add: ramp_def segment_def nth_append ImMixU32_def Let_def)
  have "(0 :: nat) < length (cm_table False ([?c] ! 0))" unfolding t l by simp
  from GetTableColor_registry [OF _ this, of length_hash]
  show "GetTableColor rb_registry 0 0 = Some 0xFF0000FF"
    unfolding t r0 by (simp add: rb_registry_def)
  have "(1 :: nat) < length (cm_table False ([?c] ! 0))" unfolding t l by simp
  from GetTableColor_registry [OF _ this, of length_hash]
  show "GetTableColor rb_registry 0 1 = Some 0xFE0000FF"
    unfolding t r1 by (simp add: rb_registry_def)
qed

lemma idx_rb_tie: "LerpTable_idx False 256 (Finite (8421504 / 2 ^ 32)) = Some 1"
proof -
  have t: "(0 :: rat) \<le> 8421504 / 2 ^ 32" "(8421504 / 2 ^ 32 :: rat) \<le> 1" by simp_all
  have "round32 (of_int (2 ^ 24 - 1) * 2 powi (- 25)) = of_int (2 ^ 24 - 1) * 2 powi (- 25)"
    by (rule round32_exact) simp_all
  then have p: "round32 (16777215 / 33554432) = 16777215 / 33554432"
    by (simp add: power_int_minus)
  have x: "(16777215 / 33554432 + 1 / 2 :: rat) = 1 - 1 / 2 ^ 25" by simp
  have q: "round32 (16777215 / 33554432 + 1 / 2) = 1"
    unfolding x by (rule round32_below_one)
  from LerpTable_idx_cont [of 256 "8421504 / 2 ^ 32"] t
  have "LerpTable_idx False 256 (Finite (8421504 / 2 ^ 32)) =
      Some \<lfloor>round32 (round32 (of_int (256 - 1) * (8421504 / 2 ^ 32)) + 1 / 2)\<rfloor>"
    by simp
  also have "of_int (256 - 1) * (8421504 / 2 ^ 32) = (16777215 / 33554432 :: rat)"
    by simp
  finally show ?thesis
    by (simp only: p q floor_one)
qed

text \<open>
  Claim C2 as stated fails on the spec's own example colormap: \<open>t = 8421504 / 2\<^sup>3\<^sup>2\<close>
  is a \<^verbatim>\<open>float\<close> in \<open>[0, 1]\<close>, \<open>255 * t = 1/2 - 2\<^sup>-\<^sup>2\<^sup>5\<close> exactly, so
  \<open>round(255 * t) = 0\<close>, and \<^verbatim>\<open>LerpTable\<close> returns the entry at index \<open>1\<close>.
\<close>

theorem LerpTable_round_counterexample:
  "GetTableSize rb_registry 0 = Some 256 \<and>
   IsQual rb_registry 0 = Some False \<and>
   (0 :: rat) \<le> 8421504 / 2 ^ 32 \<and> (8421504 / 2 ^ 32 :: rat) \<le> 1 \<and>
   round32 (8421504 / 2 ^ 32) = 8421504 / 2 ^ 32 \<and>
   \<lfloor>of_int (256 - 1) * (8421504 / 2 ^ 32) + 1 / 2 :: rat\<rfloor> = 0 \<and>
   GetTableColor rb_registry 0 0 = Some 0xFF0000FF \<and>
   LerpTable rb_registry 0 (Finite (8421504 / 2 ^ 32)) = Some 0xFE0000FF"
proof -
  have "round32 (of_int 8421504 * 2 powi (- 32)) = of_int 8421504 * 2 powi (- 32)"
    by (rule round32_exact) simp_all
  then have f: "round32 (8421504 / 2 ^ 32) = 8421504 / 2 ^ 32"
    by (simp add: power_int_minus)
  have fl: "\<lfloor>of_int (256 - 1) * (8421504 / 2 ^ 32) + 1 / 2 :: rat\<rfloor> = 0"
    by (simp add: floor_eq_iff)
  have "vget (TableSizes rb_registry) 0 = Some 256"
    using rb_table_size by (simp add: GetTableSize_def)
  moreover have "vget (Quals rb_registry) 0 = Some False"
    using rb_qual by (simp add: IsQual_def)
  ultimately have "LerpTable rb_registry 0 (Finite (8421504 / 2 ^ 32)) =
      GetTableColor rb_registry 0 1"
    using idx_rb_tie by (rule LerpTable_via_idx)
  with rb_entries rb_table_size rb_qual f fl show ?thesis by simp
qed

text \<open>
  Claim C9 says that the index \<^verbatim>\<open>LerpTable\<close> computes lies in \<open>[0, s - 1]\<close> for
  every registered colormap with table size \<open>s \<ge> 1\<close> and every \<open>t\<close> in \<open>[0, 1]\<close>.
  The continuous branch does not keep it there. A continuous colormap of 32898 keys has
  a table of \<open>s = 8388736\<close> entries; at \<open>t = 1\<close> the code computes
  \<^verbatim>\<open>(int)(8388735.0f * 1.0f + 0.5f)\<close>. Between \<open>2\<^sup>2\<^sup>3\<close> and \<open>2\<^sup>2\<^sup>4\<close> the
  \<^verbatim>\<open>float\<close> values are the integers, \<open>8388735.5\<close> is halfway between two of them
  and rounds to the even one, \<open>8388736\<close>: the index is \<open>s\<close>, one past the table.
  The qualitative branch clamps. Up to \<open>2\<^sup>2\<^sup>3\<close> entries the index is in range
  (\<open>LerpTable_index_in_range\<close>).
\<close>

theorem LerpTable_index_past_table:
  "Append False length_hash ImPlot3DColormapData_ctor ''big'' big_keys 32898 False =
     Some (0, big_registry) \<and>
   length big_keys = 32898 \<and>
   GetTableSize big_registry 0 = Some 8388736 \<and>
   IsQual big_registry 0 = Some False \<and>
   LerpTable_idx False 8388736 (Finite 1) = Some 8388736"
  using Append_big length_big_keys big_table_size big_qual idx_big by simp

text \<open>
  Claim C6 says that \<^verbatim>\<open>LerpTable\<close> returns the first table entry at \<open>t = 0\<close> and
  the last one at \<open>t = 1\<close>, for every registered colormap. On the colormap of 32898
  keys above the last entry is at index \<open>8388735\<close>, and \<^verbatim>\<open>LerpTable\<close> at \<open>t = 1\<close>
  reads index \<open>8388736\<close>, outside the vector. With at most \<open>2\<^sup>2\<^sup>3\<close> entries both
  halves of the claim hold (\<open>LerpTable_endpoints\<close>).
\<close>

theorem LerpTable_one_misses_last_entry:
  "Append False length_hash ImPlot3DColormapData_ctor ''big'' big_keys 32898 False =
     Some (0, big_registry) \<and>
   GetTableSize big_registry 0 = Some 8388736 \<and>
   GetTableColor big_registry 0 (8388736 - 1) = Some 0 \<and>
   LerpTable big_registry 0 (Finite 1) = None"
  using Append_big big_table_size big_last_entry LerpTable_big by simp

end
